theory Spec2Isabelle
  imports Main "HOL-Library.Sublist"
begin

section \<open>Strings, configuration and exceptions\<close>

text \<open>
  A Python \<open>str\<close> is modelled as a \<open>string\<close>. The program distinguishes only the ASCII
  characters \<open>!\<close>, space, \<open>{\<close>, \<open>}\<close>, carriage return and line feed, so the difference between
  code points and bytes plays no role. A line is modelled after \<open>data.decode(...)\<close>.
\<close>

abbreviation CR :: char where "CR \<equiv> CHR 0x0D"
abbreviation LF :: char where "LF \<equiv> CHR 0x0A"
abbreviation CRLF :: string where "CRLF \<equiv> [CR, LF]"

text \<open>\<open>class Config(NamedTuple)\<close>.\<close>

record Config =
  username :: string
  channel :: string
  oauth_token :: string
  client_id :: string

text \<open>
  A raised exception, an instance of some subclass of \<open>Exception\<close>; \<open>exn_name\<close> is
  \<open>type(e).__name__\<close>. What is raised outside \<open>Exception\<close> (a keyboard interrupt, the exit
  of the interpreter) ends the process and has no place in this model.
\<close>

datatype exn = Exception (exn_name: string)

text \<open>\<open>str.replace\<close> for a pattern of one character, and \<open>esc\<close>.\<close>

definition replace_chr :: "char \<Rightarrow> string \<Rightarrow> string \<Rightarrow> string" where
  "replace_chr old new s = concat (map (\<lambda>x. if x = old then new else [x]) s)"

definition esc :: "string \<Rightarrow> string" where
  "esc s = replace_chr (CHR ''}'') ''}}'' (replace_chr (CHR ''{'') ''{{'' s)"

text \<open>\<open>s.partition(sep)\<close> for a separator of one character.\<close>

fun str_partition :: "char \<Rightarrow> string \<Rightarrow> string \<times> string \<times> string" where
  "str_partition sep [] = ([], [], [])"
| "str_partition sep (x # xs) =
     (if x = sep then ([], [sep], xs)
      else (case str_partition sep xs of (a, s, b) \<Rightarrow> (x # a, s, b)))"

text \<open>\<open>sep.join(parts)\<close>.\<close>

fun join :: "string \<Rightarrow> string list \<Rightarrow> string" where
  "join sep [] = []"
| "join sep [p] = p"
| "join sep (p # q # ps) = p @ sep @ join sep (q # ps)"

text \<open>\<open>str(n)\<close> for a non-negative integer, and the format spec \<open>{n:02}\<close>.\<close>

definition digit_chr :: "nat \<Rightarrow> char" where
  "digit_chr d =
     (if d = 0 then CHR ''0'' else if d = 1 then CHR ''1'' else if d = 2 then CHR ''2''
      else if d = 3 then CHR ''3'' else if d = 4 then CHR ''4'' else if d = 5 then CHR ''5''
      else if d = 6 then CHR ''6'' else if d = 7 then CHR ''7'' else if d = 8 then CHR ''8''
      else CHR ''9'')"

fun str_nat :: "nat \<Rightarrow> string" where
  "str_nat n = (if n < 10 then [digit_chr n] else str_nat (n div 10) @ [digit_chr (n mod 10)])"

definition pad02 :: "nat \<Rightarrow> string" where
  "pad02 n = (if n < 10 then CHR ''0'' # str_nat n else str_nat n)"


section \<open>Regular expressions\<close>

text \<open>
  The patterns of the program, in Python's \<open>re\<close> syntax, are sequences of the following
  tokens. Every quantifier of the source applies to a class of single characters, and
  no group is nested in another one.
\<close>

datatype cls =
    Dot          \<comment> \<open>\<open>.\<close>: any character but a line feed (no \<open>DOTALL\<close> flag)\<close>
  | Not char     \<comment> \<open>\<open>[^c]\<close>\<close>

fun accepts :: "cls \<Rightarrow> char \<Rightarrow> bool" where
  "accepts Dot x = (x \<noteq> LF)"
| "accepts (Not c) x = (x \<noteq> c)"

datatype tok =
    Bol                   \<comment> \<open>\<open>^\<close>\<close>
  | Eol                   \<comment> \<open>\<open>$\<close> (no \<open>MULTILINE\<close> flag)\<close>
  | Lit string            \<comment> \<open>a run of literal characters\<close>
  | Star cls              \<comment> \<open>\<open>c*\<close>, greedy\<close>
  | Plus cls              \<comment> \<open>\<open>c+\<close>, greedy\<close>
  | Open "string option"  \<comment> \<open>\<open>(\<close> or \<open>(?P<name>\<close>\<close>
  | Close                 \<comment> \<open>\<open>)\<close>\<close>

type_synonym pattern = "tok list"

text \<open>A group: its name if it has one, and the positions where it starts and ends.\<close>

type_synonym span = "string option \<times> nat \<times> nat"

fun strip :: "string \<Rightarrow> string \<Rightarrow> string option" where
  "strip [] s = Some s"
| "strip (c # l) [] = None"
| "strip (c # l) (x # s) = (if c = x then strip l s else None)"

fun close_last :: "nat \<Rightarrow> span list \<Rightarrow> span list" where
  "close_last p [] = []"
| "close_last p [(n, i, j)] = [(n, i, p)]"
| "close_last p (g # h # gs) = g # close_last p (h # gs)"

text \<open>
  The backtracking matcher: \<open>run ts s p gs\<close> matches the tokens \<open>ts\<close> against the rest \<open>s\<close>
  of the subject, which starts at position \<open>p\<close>, with the groups \<open>gs\<close> seen so far. A greedy
  quantifier first takes one more character and falls back to the rest of the pattern
  when that fails. \<open>$\<close> matches at the end of the subject and before a line feed that is its
  last character. The result is the position where the match ends, and the groups.
\<close>

fun run :: "pattern \<Rightarrow> string \<Rightarrow> nat \<Rightarrow> span list \<Rightarrow> (nat \<times> span list) option" where
  "run [] s p gs = Some (p, gs)"
| "run (Bol # ts) s p gs = (if p = 0 then run ts s p gs else None)"
| "run (Eol # ts) s p gs = (if s = [] \<or> s = [LF] then run ts s p gs else None)"
| "run (Lit l # ts) s p gs =
     (case strip l s of None \<Rightarrow> None | Some s' \<Rightarrow> run ts s' (p + length l) gs)"
| "run (Open n # ts) s p gs = run ts s p (gs @ [(n, p, p)])"
| "run (Close # ts) s p gs = run ts s p (close_last p gs)"
| "run (Plus c # ts) [] p gs = None"
| "run (Plus c # ts) (x # s) p gs =
     (if accepts c x then run (Star c # ts) s (Suc p) gs else None)"
| "run (Star c # ts) [] p gs = run ts [] p gs"
| "run (Star c # ts) (x # s) p gs =
     (if accepts c x
      then (case run (Star c # ts) s (Suc p) gs of
              Some r \<Rightarrow> Some r
            | None \<Rightarrow> run ts (x # s) p gs)
      else run ts (x # s) p gs)"

text \<open>
  A match object: \<open>whole\<close> is \<open>match.group(0)\<close>, \<open>grps\<close> the groups in the order of their
  opening parentheses, each with its name if it has one.
\<close>

record Match =
  whole :: string
  grps :: "(string option \<times> string) list"

definition span_text :: "string \<Rightarrow> span \<Rightarrow> string option \<times> string" where
  "span_text s g = (case g of (n, i, j) \<Rightarrow> (n, take (j - i) (drop i s)))"

text \<open>\<open>pattern.match(s)\<close>: the match starts at position 0 and may end before the end of \<open>s\<close>.\<close>

definition re_match :: "pattern \<Rightarrow> string \<Rightarrow> Match option" where
  "re_match pat s =
     (case run pat s 0 [] of
        None \<Rightarrow> None
      | Some (e, gs) \<Rightarrow> Some \<lparr>whole = take e s, grps = map (span_text s) gs\<rparr>)"

text \<open>\<open>match.groups()\<close>, \<open>match.groupdict()\<close> and \<open>match.group(k)\<close> or \<open>match[k]\<close>.\<close>

definition groups :: "Match \<Rightarrow> string list" where
  "groups m = map snd (grps m)"

fun named :: "(string option \<times> string) list \<Rightarrow> (string \<rightharpoonup> string)" where
  "named [] = Map.empty"
| "named ((None, v) # gs) = named gs"
| "named ((Some n, v) # gs) = (named gs)(n \<mapsto> v)"

definition groupdict :: "Match \<Rightarrow> (string \<rightharpoonup> string)" where
  "groupdict m = named (grps m)"

definition group :: "Match \<Rightarrow> nat \<Rightarrow> exn + string" where
  "group m k =
     (if k = 0 then Inr (whole m)
      else if k \<le> length (grps m) then Inr (groups m ! (k - 1))
      else Inl (Exception ''IndexError''))"

text \<open>The three module-level constants.\<close>

definition MSG_RE :: pattern where
  "MSG_RE = [Bol, Lit '':'', Open None, Plus (Not (CHR ''!'')), Close, Star Dot,
             Lit '' PRIVMSG #'', Plus (Not (CHR '' '')), Lit '' :'',
             Open None, Plus (Not CR), Close]"

definition PRIVMSG :: string where
  "PRIVMSG = ''PRIVMSG #{channel} :{msg}'' @ CRLF"

definition SEND_MSG_RE :: pattern where
  "SEND_MSG_RE = [Bol, Lit ''PRIVMSG #'', Plus (Not (CHR '' '')), Lit '' :'',
                  Open (Some ''msg''), Plus (Not CR), Close]"


section \<open>\<open>str.format\<close> with keyword arguments\<close>

text \<open>
  \<open>template.format(**kw)\<close>, read from left to right: \<open>{{\<close> and \<open>}}\<close> stand for one brace,
  a single \<open>}\<close> and an unclosed \<open>{\<close> raise \<open>ValueError\<close>, and \<open>{name}\<close> is replaced by the
  keyword argument of that name. No positional argument is ever passed, so an empty or
  numeric field raises \<open>IndexError\<close>, and a name that is no keyword raises \<open>KeyError\<close>.
  Conversions, format specs and attribute or index access occur in no template of the
  program and are not modelled: the text between the braces is taken as the name.
\<close>

fun field_end :: "string \<Rightarrow> (string \<times> string) option" where
  "field_end [] = None"
| "field_end (x # xs) =
     (if x = CHR ''}'' then Some ([], xs)
      else (case field_end xs of None \<Rightarrow> None | Some (f, r) \<Rightarrow> Some (x # f, r)))"

lemma field_end_length:
  "field_end s = Some (f, r) \<Longrightarrow> length r < length s"
  by (induction s arbitrary: f r) (auto split: if_splits option.splits)

definition get_field :: "(string \<rightharpoonup> string) \<Rightarrow> string \<Rightarrow> exn + string" where
  "get_field kw f =
     (if CHR ''{'' \<in> set f then Inl (Exception ''ValueError'')
      else if \<forall>x \<in> set f. x \<in> set ''0123456789'' then Inl (Exception ''IndexError'')
      else (case kw f of None \<Rightarrow> Inl (Exception ''KeyError'') | Some v \<Rightarrow> Inr v))"

function py_format :: "(string \<rightharpoonup> string) \<Rightarrow> string \<Rightarrow> exn + string" where
  "py_format kw [] = Inr []"
| "py_format kw (c # cs) =
     (if c = CHR ''}'' then
        (case cs of
           [] \<Rightarrow> Inl (Exception ''ValueError'')
         | d # ds \<Rightarrow>
             if d = CHR ''}'' then map_sum id ((#) c) (py_format kw ds)
             else Inl (Exception ''ValueError''))
      else if c = CHR ''{'' then
        (case cs of
           [] \<Rightarrow> Inl (Exception ''ValueError'')
         | d # ds \<Rightarrow>
             if d = CHR ''{'' then map_sum id ((#) c) (py_format kw ds)
             else (case field_end cs of
                     None \<Rightarrow> Inl (Exception ''ValueError'')
                   | Some (f, r) \<Rightarrow>
                       (case get_field kw f of
                          Inl e \<Rightarrow> Inl e
                        | Inr v \<Rightarrow> map_sum id ((@) v) (py_format kw r))))
      else map_sum id ((#) c) (py_format kw cs))"
  by pat_completeness auto
termination
proof (relation "measure (\<lambda>(kw, s). length s)")
  fix kw :: "string \<rightharpoonup> string" and c :: char and cs x21 x22 x2 x y xa
  assume "cs = x21 # x22" and "field_end cs = Some x2" and "(x, y) = x2"
  then have "length y < length cs"
    using field_end_length [of cs x y] by simp
  then show "((kw, y), (kw, c # cs)) \<in> measure (\<lambda>(kw, s). length s)"
    by simp
qed auto


section \<open>The outside world\<close>

text \<open>
  What one pass of the loop finds outside the program: the local wall-clock time read by
  \<open>dt_str\<close>, the UTC time read by \<open>utcnow\<close>, and the answer of the status service. Points in
  time are counted in microseconds from a fixed origin. \<open>status\<close> is what
  \<open>json.loads(text)['data']\<close> yields after the HTTP request, or the exception that any of
  these steps raises; each record is the value \<open>strptime\<close> reads from its \<open>started_at\<close>,
  or the exception that reading it raises.
\<close>

record env =
  now_hour :: nat
  now_minute :: nat
  utcnow :: int
  status :: "exn + (exn + int) list"

text \<open>\<open>(a - b).seconds\<close> for two datetimes: the seconds field of the normalised timedelta.\<close>

definition timedelta_seconds :: "int \<Rightarrow> int \<Rightarrow> nat" where
  "timedelta_seconds a b = nat (((a - b) div 1000000) mod 86400)"

definition dt_str :: "env \<Rightarrow> string" where
  "dt_str e = ''['' @ pad02 (now_hour e) @ '':'' @ pad02 (now_minute e) @ '']''"

text \<open>
  The transport and the two output streams. \<open>inbox\<close> is the text the server has yet to
  deliver, \<open>sent\<close> what was written to the transport, \<open>stderr\<close> and \<open>stdout\<close> what was written
  to the two diagnostic streams. The transport itself does not fail in this model.
\<close>

datatype errout = Text string | Traceback exn

record world =
  inbox :: string
  sent :: "string list"
  stderr :: "errout list"
  stdout :: "string list"

definition print :: "string \<Rightarrow> world \<Rightarrow> world" where
  "print line w = w\<lparr>stdout := stdout w @ [line]\<rparr>"

definition send :: "string \<Rightarrow> bool \<Rightarrow> world \<Rightarrow> world" where
  "send msg quiet w =
     (let w' = (if \<not> quiet then w\<lparr>stderr := stderr w @ [Text (''< '' @ msg)]\<rparr> else w)
      in w'\<lparr>sent := sent w' @ [msg]\<rparr>)"

text \<open>\<open>reader.readline()\<close>: up to and including the first line feed, or all that is left.\<close>

fun readline :: "string \<Rightarrow> string \<times> string" where
  "readline [] = ([], [])"
| "readline (x # xs) =
     (if x = LF then ([x], xs)
      else (case readline xs of (l, r) \<Rightarrow> (x # l, r)))"

definition recv :: "bool \<Rightarrow> world \<Rightarrow> string \<times> world" where
  "recv quiet w =
     (case readline (inbox w) of (data, rest) \<Rightarrow>
        (data, (if \<not> quiet then w\<lparr>stderr := stderr w @ [Text (''> '' @ data)]\<rparr> else w)
                 \<lparr>inbox := rest\<rparr>))"


section \<open>Responses\<close>

text \<open>The class \<open>Response\<close> and its three subclasses; \<open>call r config\<close> is \<open>await r(config)\<close>.\<close>

datatype Response =
    NoResponse
  | CmdResponse string
  | MessageResponse Match string
  | UptimeResponse

fun uptime_parts :: "(nat \<times> string) list \<Rightarrow> nat \<Rightarrow> string list \<Rightarrow> string list" where
  "uptime_parts [] elapsed parts = parts"
| "uptime_parts ((n, unit) # us) elapsed parts =
     uptime_parts us (elapsed mod n)
       (if elapsed div n \<noteq> 0 then parts @ [str_nat (elapsed div n) @ '' '' @ unit] else parts)"

definition units :: "(nat \<times> string) list" where
  "units = [(60 * 60, ''hours''), (60, ''minutes''), (1, ''seconds'')]"

definition uptime :: "Config \<Rightarrow> env \<Rightarrow> exn + string option" where
  "uptime config e =
     (case status e of
        Inl x \<Rightarrow> Inl x
      | Inr data \<Rightarrow>
          (case data of
             [] \<Rightarrow>
               map_sum id Some
                 (py_format [''channel'' \<mapsto> channel config, ''msg'' \<mapsto> ''not currently streaming!'']
                    PRIVMSG)
           | d # ds \<Rightarrow>
               (case d of
                  Inl x \<Rightarrow> Inl x
                | Inr start_time \<Rightarrow>
                    (let elapsed = timedelta_seconds (utcnow e) start_time;
                         parts = uptime_parts units elapsed [];
                         msg = ''streaming for: '' @ join '', '' parts
                     in map_sum id Some
                          (py_format [''channel'' \<mapsto> channel config, ''msg'' \<mapsto> msg] PRIVMSG)))))"

fun call :: "Response \<Rightarrow> Config \<Rightarrow> env \<Rightarrow> exn + string option" where
  "call NoResponse config e = Inr None"
| "call (CmdResponse cmd) config e = Inr (Some cmd)"
| "call (MessageResponse match msg_fmt) config e =
     (let params = groupdict match in
      case py_format params msg_fmt of
        Inl x \<Rightarrow> Inl x
      | Inr msg \<Rightarrow> map_sum id Some (py_format (params(''msg'' \<mapsto> msg)) PRIVMSG))"
| "call UptimeResponse config e = uptime config e"


section \<open>The table of handlers\<close>

type_synonym Callback = "Match \<Rightarrow> exn + Response"

text \<open>
  \<open>handler(*prefixes)(func)\<close> appends one rule for each prefix, whose pattern is the prefix
  followed by \<open>\r\n$\<close>. \<open>handle_message\<close> builds the prefix of a chat line around the message
  prefix, which is a run of literal characters in both uses.
\<close>

definition handler :: "pattern list \<Rightarrow> Callback \<Rightarrow> (pattern \<times> Callback) list" where
  "handler prefix_list func = map (\<lambda>pre. (pre @ [Lit CRLF, Eol], func)) prefix_list"

definition handle_message :: "string list \<Rightarrow> Callback \<Rightarrow> (pattern \<times> Callback) list" where
  "handle_message message_prefixes =
     handler (map (\<lambda>message_prefix.
       [Bol, Lit '':'', Open (Some ''user''), Plus (Not (CHR ''!'')), Close, Star Dot,
        Lit '' PRIVMSG #'', Open (Some ''channel''), Plus (Not (CHR '' '')), Close,
        Lit '' :'', Open (Some ''msg''), Lit message_prefix, Star Dot, Close])
       message_prefixes)"

definition pong :: Callback where
  "pong match =
     (case group match 1 of
        Inl x \<Rightarrow> Inl x
      | Inr payload \<Rightarrow> Inr (CmdResponse (''PONG '' @ payload @ CRLF)))"

definition cmd_uptime :: Callback where
  "cmd_uptime match = Inr UptimeResponse"

definition msg_ping :: Callback where
  "msg_ping match =
     (case groups match of
        [u, c, msg] \<Rightarrow>
          (case str_partition (CHR '' '') msg of
             (a, sep, rest) \<Rightarrow> Inr (MessageResponse match (''PONG '' @ esc rest)))
      | _ \<Rightarrow> Inl (Exception ''ValueError''))"

definition HANDLERS :: "(pattern \<times> Callback) list" where
  "HANDLERS =
     handler [[Bol, Lit ''PING '', Open None, Star Dot, Close]] pong
     @ handle_message [''!uptime''] cmd_uptime
     @ handle_message [''PING''] msg_ping"


section \<open>The dispatch loop\<close>

text \<open>
  The body of \<open>if res is not None:\<close>, the \<open>try\<close> statement with what follows it, the \<open>for\<close>
  loop with its \<open>else\<close> branch, and one pass of \<open>while True\<close>. An exception that the source
  does not catch ends the program: it is the result \<open>Inl\<close>.
\<close>

definition deliver :: "Config \<Rightarrow> bool \<Rightarrow> env \<Rightarrow> string \<Rightarrow> world \<Rightarrow> exn + world" where
  "deliver config quiet e res w =
     (case re_match SEND_MSG_RE res of
        Some send_match \<Rightarrow>
          (case group send_match 1 of
             Inl x \<Rightarrow> Inl x
           | Inr g \<Rightarrow>
               Inr (send res quiet
                      (print (dt_str e @ ''<'' @ username config @ ''> '' @ g @ [LF]) w)))
      | None \<Rightarrow> Inr (send res quiet w))"

definition respond ::
  "Config \<Rightarrow> bool \<Rightarrow> env \<Rightarrow> Callback \<Rightarrow> Match \<Rightarrow> world \<Rightarrow> exn + world" where
  "respond config quiet e func match w =
     (case (case func match of Inl x \<Rightarrow> Inl x | Inr r \<Rightarrow> call r config e) of
        Inr None \<Rightarrow> Inr w
      | Inr (Some res) \<Rightarrow> deliver config quiet e res w
      | Inl x \<Rightarrow>
          (case py_format
                  [''channel'' \<mapsto> channel config,
                   ''msg'' \<mapsto> ''*** unhandled '' @ exn_name x @ '' -- see logs'']
                  PRIVMSG of
             Inl y \<Rightarrow> Inl y
           | Inr res \<Rightarrow> deliver config quiet e res (w\<lparr>stderr := stderr w @ [Traceback x]\<rparr>)))"

fun for_handlers ::
  "Config \<Rightarrow> bool \<Rightarrow> env \<Rightarrow> (pattern \<times> Callback) list \<Rightarrow> string \<Rightarrow> world \<Rightarrow> exn + world" where
  "for_handlers config quiet e [] msg w =
     Inr (if \<not> quiet then print (''UNHANDLED: '' @ msg) w else w)"
| "for_handlers config quiet e ((pat, func) # rules) msg w =
     (case re_match pat msg of
        Some match \<Rightarrow> respond config quiet e func match w
      | None \<Rightarrow> for_handlers config quiet e rules msg w)"

definition iteration ::
  "(pattern \<times> Callback) list \<Rightarrow> Config \<Rightarrow> bool \<Rightarrow> env \<Rightarrow> world \<Rightarrow> exn + world" where
  "iteration rules config quiet e w =
     (case recv quiet w of (msg, w1) \<Rightarrow>
        (case re_match MSG_RE msg of
           Some msg_match \<Rightarrow>
             (case group msg_match 1 of
                Inl x \<Rightarrow> Inl x
              | Inr g1 \<Rightarrow>
                  (case group msg_match 2 of
                     Inl x \<Rightarrow> Inl x
                   | Inr g2 \<Rightarrow>
                       for_handlers config quiet e rules msg
                         (print (dt_str e @ ''<'' @ g1 @ ''> '' @ g2 @ [LF]) w1)))
         | None \<Rightarrow> for_handlers config quiet e rules msg w1))"

text \<open>
  \<open>while True\<close> never returns. \<open>while_true rules config quiet es w\<close> is the world after as many
  passes as \<open>es\<close> has elements, each pass with its own outside conditions, unless an
  uncaught exception has ended the program before.
\<close>

fun while_true ::
  "(pattern \<times> Callback) list \<Rightarrow> Config \<Rightarrow> bool \<Rightarrow> env list \<Rightarrow> world \<Rightarrow> exn + world" where
  "while_true rules config quiet [] w = Inr w"
| "while_true rules config quiet (e # es) w =
     (case iteration rules config quiet e w of
        Inl x \<Rightarrow> Inl x
      | Inr w' \<Rightarrow> while_true rules config quiet es w')"

text \<open>The three lines sent before the loop, and \<open>amain\<close>.\<close>

definition bootstrap :: "Config \<Rightarrow> bool \<Rightarrow> world \<Rightarrow> world" where
  "bootstrap config quiet w =
     send (''JOIN #'' @ channel config @ CRLF) quiet
       (send (''NICK '' @ username config @ CRLF) quiet
          (send (''PASS '' @ oauth_token config @ CRLF) True w))"

definition amain :: "Config \<Rightarrow> bool \<Rightarrow> env list \<Rightarrow> world \<Rightarrow> exn + world" where
  "amain config quiet es w = while_true HANDLERS config quiet es (bootstrap config quiet w)"


text \<open>A configuration, outside conditions and a starting world to run the program on.\<close>

definition test_config :: Config where
  "test_config =
     \<lparr>username = ''bot'', channel = ''chan'', oauth_token = ''secret'', client_id = ''id''\<rparr>"

definition test_env :: env where
  "test_env =
     \<lparr>now_hour = 9, now_minute = 5, utcnow = 90061000000, status = Inr [Inr 86400000000]\<rparr>"

definition fresh :: "string \<Rightarrow> world" where
  "fresh s = \<lparr>inbox = s, sent = [], stderr = [], stdout = []\<rparr>"


text \<open>
  The tokens that the pattern of \<open>handle_message\<close> has from \<open> PRIVMSG #\<close> on, and the number
  of groups of a pattern.
\<close>

definition chat_tail :: "string \<Rightarrow> pattern" where
  "chat_tail pre = [Lit '' PRIVMSG #'', Open (Some ''channel''), Plus (Not (CHR '' '')), Close,
        Lit '' :'', Open (Some ''msg''), Lit pre, Star Dot, Close, Lit CRLF, Eol]"

fun opens :: "pattern \<Rightarrow> nat" where
  "opens [] = 0"
| "opens (Open n # ts) = Suc (opens ts)"
| "opens (t # ts) = opens ts"


text \<open>
  The decomposition of a number of seconds as the reply lists it: hours, minutes and
  seconds, the largest unit first, a unit left out when its value is zero.
\<close>

definition shown :: "nat \<Rightarrow> string \<Rightarrow> string list" where
  "shown n unit = (if n = 0 then [] else [str_nat n @ '' '' @ unit])"

definition hms :: "nat \<Rightarrow> string list" where
  "hms s = shown (s div 3600) ''hours'' @ shown (s mod 3600 div 60) ''minutes''
           @ shown (s mod 60) ''seconds''"


text \<open>
  What a run has written to the two diagnostic streams, and all of a world but what
  was sent.
\<close>

definition diag :: "world \<Rightarrow> errout list \<times> string list" where
  "diag w = (stderr w, stdout w)"

definition obs :: "world \<Rightarrow> string \<times> errout list \<times> string list" where
  "obs w = (inbox w, stderr w, stdout w)"


text \<open>
  The test \<open>if send_match:\<close> of the loop on a response, and the chat line that
  \<open>PRIVMSG.format(channel=ch, msg=msg)\<close> gives.
\<close>

definition recognised :: "string \<Rightarrow> bool" where
  "recognised res = (re_match SEND_MSG_RE res \<noteq> None)"

definition chat_line :: "string \<Rightarrow> string \<Rightarrow> string" where
  "chat_line ch msg = ''PRIVMSG #'' @ ch @ '' :'' @ msg @ CRLF"


section \<open>Properties of the model\<close>

subsection \<open>Lines and greedy quantifiers\<close>

lemma readline_no_LF:
  "readline s = (l @ [x], r) \<Longrightarrow> LF \<notin> set l"
proof (induction s arbitrary: l)
  case Nil
  then show ?case by simp
next
  case (Cons a s)
  show ?case
  proof (cases "a = LF")
    case True
    with Cons.prems show ?thesis by simp
  next
    case False
    obtain l' r' where lr: "readline s = (l', r')" by (cases "readline s")
    with False Cons.prems have eq: "a # l' = l @ [x]" and "r' = r" by simp_all
    show ?thesis
    proof (cases l)
      case Nil
      then show ?thesis by simp
    next
      case (Cons b k)
      with eq have "a = b" and "l' = k @ [x]" by simp_all
      with lr Cons.IH [of k] \<open>r' = r\<close> have "LF \<notin> set k" by simp
      with Cons False \<open>a = b\<close> show ?thesis by auto
    qed
  qed
qed

text \<open>A greedy star that can take all of \<open>xs\<close> and then succeed does so.\<close>

lemma star_app_Some:
  "\<forall>x \<in> set xs. accepts c x \<Longrightarrow> run (Star c # ts) ys (p + length xs) gs = Some r
   \<Longrightarrow> run (Star c # ts) (xs @ ys) p gs = Some r"
  by (induction xs arbitrary: p) auto

lemma close_last_snoc [simp]: "close_last p (gs @ [(n, i, j)]) = gs @ [(n, i, p)]"
  by (induction p gs rule: close_last.induct) auto

lemma run_pong_tail:
  assumes "LF \<notin> set payload"
  shows "run [Star Dot, Close, Lit CRLF, Eol] (payload @ CRLF) p (gs @ [(n, i, j)])
         = Some (p + length payload + 2, gs @ [(n, i, p + length payload)])"
  using assms by (intro star_app_Some) auto

lemma pong_pattern_match:
  assumes "LF \<notin> set payload"
  shows "re_match [Bol, Lit ''PING '', Open None, Star Dot, Close, Lit CRLF, Eol]
           (''PING '' @ payload @ CRLF)
         = Some \<lparr>whole = ''PING '' @ payload @ CRLF, grps = [(None, payload)]\<rparr>"
  using run_pong_tail [OF assms, of _ "[]"]
  by (simp add: re_match_def span_text_def)

lemma strip_Some_iff: "strip l s = Some t \<longleftrightarrow> s = l @ t"
  by (induction l s rule: strip.induct) auto

lemma strip_app [simp]: "strip l (l @ t) = Some t"
  by (simp add: strip_Some_iff)

text \<open>A star whose continuation fails at every later position stops at once.\<close>

lemma star_later_fail:
  "(\<And>k. 0 < k \<Longrightarrow> k \<le> length ys \<Longrightarrow> run ts (drop k ys) (q + k) gs = None)
   \<Longrightarrow> run (Star c # ts) ys q gs = run ts ys q gs"
proof (induction ys arbitrary: q)
  case Nil
  then show ?case by simp
next
  case (Cons y ys)
  have "run (Star c # ts) ys (Suc q) gs = run ts ys (Suc q) gs"
  proof (rule Cons.IH)
    fix k assume "0 < k" "k \<le> length ys"
    then show "run ts (drop k ys) (Suc q + k) gs = None"
      using Cons.prems [of "Suc k"] by simp
  qed
  moreover have "run ts ys (Suc q) gs = None"
    using Cons.prems [of 1] by simp
  ultimately show ?case by simp
qed

lemma star_exact:
  "\<forall>x \<in> set xs. accepts c x \<Longrightarrow>
   (\<And>k. k < length xs \<Longrightarrow> run ts (drop k xs @ ys) (p + k) gs = None) \<Longrightarrow>
   run (Star c # ts) ys (p + length xs) gs = r \<Longrightarrow>
   run (Star c # ts) (xs @ ys) p gs = r"
proof (induction xs arbitrary: p)
  case Nil
  then show ?case by simp
next
  case (Cons x xs)
  have "run (Star c # ts) (xs @ ys) (Suc p) gs = r"
  proof (rule Cons.IH)
    show "\<forall>x \<in> set xs. accepts c x" using Cons.prems(1) by simp
    fix k assume "k < length xs"
    then show "run ts (drop k xs @ ys) (Suc p + k) gs = None"
      using Cons.prems(2) [of "Suc k"] by simp
  next
    show "run (Star c # ts) ys (Suc p + length xs) gs = r"
      using Cons.prems(3) by simp
  qed
  moreover have "run ts (x # xs @ ys) p gs = None"
    using Cons.prems(2) [of 0] by simp
  ultimately show ?case using Cons.prems(1) by (cases r) auto
qed

lemma close_last_append [simp]: "hs \<noteq> [] \<Longrightarrow> close_last p (gs @ hs) = gs @ close_last p hs"
  by (induction p gs rule: close_last.induct) (auto simp: neq_Nil_conv)

lemma run_star_dot_end:
  assumes "LF \<notin> set r"
  shows "run [Star Dot, Close, Lit CRLF, Eol] (r @ CRLF) p gs
         = Some (p + length r + 2, close_last (p + length r) gs)"
  using assms by (intro star_app_Some) auto

subsection \<open>Chat lines\<close>

text \<open>Where \<open> PRIVMSG #\<close> can start in the rest of a chat line.\<close>

lemma strip_in_body:
  assumes "strip l (drop k (b @ e)) = Some t" and "l \<noteq> []" and "set l \<inter> set e = {}"
  shows "sublist l b"
proof -
  from assms(1) have eq: "drop k b @ drop (k - length b) e = l @ t"
    by (simp add: strip_Some_iff)
  then obtain us where "(drop k b = l @ us \<and> us @ drop (k - length b) e = t)
      \<or> (drop k b @ us = l \<and> drop (k - length b) e = us @ t)"
    by (auto simp: append_eq_append_conv2)
  then show ?thesis
  proof
    assume "drop k b = l @ us \<and> us @ drop (k - length b) e = t"
    then have "b = take k b @ l @ us" by (metis append_take_drop_id)
    then show ?thesis unfolding sublist_def by blast
  next
    assume a: "drop k b @ us = l \<and> drop (k - length b) e = us @ t"
    show ?thesis
    proof (cases us)
      case Nil
      with a have "b = take k b @ l @ []" by (metis append_take_drop_id append_Nil2)
      then show ?thesis unfolding sublist_def by blast
    next
      case (Cons x xs)
      with a have "x \<in> set l" by auto
      moreover from a Cons have "x \<in> set (drop (k - length b) e)" by simp
      then have "x \<in> set e" by (meson in_set_dropD)
      ultimately show ?thesis using assms(3) by auto
    qed
  qed
qed

lemma drop_past: "length l = n \<Longrightarrow> n \<le> k \<Longrightarrow> drop k (l @ rest) = drop (k - n) rest"
  by simp

lemma no_later_privmsg:
  assumes c: "CHR '' '' \<notin> set c" and b: "\<not> sublist '' PRIVMSG #'' body" and k: "0 < k"
  shows "strip '' PRIVMSG #'' (drop k ('' PRIVMSG #'' @ c @ '' :'' @ body @ CRLF)) = None"
proof (cases "k < 10")
  case True
  with k have "k = 1 \<or> k = 2 \<or> k = 3 \<or> k = 4 \<or> k = 5 \<or> k = 6 \<or> k = 7 \<or> k = 8 \<or> k = 9"
    by linarith
  then show ?thesis by (elim disjE) simp_all
next
  case False
  define i where "i = k - 10"
  have eq: "drop k ('' PRIVMSG #'' @ c @ '' :'' @ body @ CRLF) = drop i (c @ '' :'' @ body @ CRLF)"
    using False drop_past [of "'' PRIVMSG #''" 10 k "c @ '' :'' @ body @ CRLF"]
    by (simp add: i_def)
  consider "i < length c" | "i = length c" | "i = Suc (length c)" | "Suc (Suc (length c)) \<le> i"
    by linarith
  then have "strip '' PRIVMSG #'' (drop i (c @ '' :'' @ body @ CRLF)) = None"
  proof cases
    case 1
    then obtain x xs where dx: "drop i c = x # xs"
      by (cases "drop i c") auto
    then have "x \<in> set c" by (metis in_set_dropD list.set_intros(1))
    with c have "x \<noteq> CHR '' ''" by auto
    with 1 dx show ?thesis by simp
  next
    case 2
    then show ?thesis by simp
  next
    case 3
    then show ?thesis by simp
  next
    case 4
    define j where "j = i - Suc (Suc (length c))"
    have d: "drop i (c @ '' :'' @ body @ CRLF) = drop j (body @ CRLF)"
      using 4 drop_past [of "c @ '' :''" "Suc (Suc (length c))" i "body @ CRLF"]
      by (simp add: j_def)
    show ?thesis
    proof (cases "strip '' PRIVMSG #'' (drop j (body @ CRLF))")
      case None
      with d show ?thesis by simp
    next
      case (Some t)
      then have "sublist '' PRIVMSG #'' body"
        by (rule strip_in_body) simp_all
      with b show ?thesis by simp
    qed
  qed
  with eq show ?thesis by simp
qed

lemma chat_tail_target:
  assumes c: "c \<noteq> []" "CHR '' '' \<notin> set c" and r: "LF \<notin> set r"
  shows "run (chat_tail pre) ('' PRIVMSG #'' @ c @ '' :'' @ pre @ r @ CRLF) q gs
         = Some (q + (length c + length pre + length r + 14),
                 gs @ [(Some ''channel'', q + 10, q + 10 + length c),
                       (Some ''msg'', q + 12 + length c, q + 12 + length c + length pre + length r)])"
proof -
  let ?rest = "[Open (Some ''msg''), Lit pre, Star Dot, Close, Lit CRLF, Eol]"
  from c obtain x c' where cx: "c = x # c'" "x \<noteq> CHR '' ''" "CHR '' '' \<notin> set c'"
    by (cases c) auto
  have after: "\<And>p hs n i j. run (Close # Lit '' :'' # ?rest) ('' :'' @ pre @ r @ CRLF) p (hs @ [(n, i, j)])
      = Some (p + 2 + length pre + length r + 2,
              hs @ [(n, i, p), (Some ''msg'', p + 2, p + 2 + length pre + length r)])"
    by (simp add: run_star_dot_end [OF r])
  have star: "\<And>p hs. run (Star (Not (CHR '' '')) # Close # Lit '' :'' # ?rest)
        (c' @ '' :'' @ pre @ r @ CRLF) p hs
      = run (Close # Lit '' :'' # ?rest) ('' :'' @ pre @ r @ CRLF) (p + length c') hs"
  proof -
    fix p hs
    show "run (Star (Not (CHR '' '')) # Close # Lit '' :'' # ?rest)
        (c' @ '' :'' @ pre @ r @ CRLF) p hs
      = run (Close # Lit '' :'' # ?rest) ('' :'' @ pre @ r @ CRLF) (p + length c') hs"
    proof (rule star_exact)
      show "\<forall>x \<in> set c'. accepts (Not (CHR '' '')) x" using cx by auto
    next
      fix k assume "k < length c'"
      then obtain y ys where d: "drop k c' = y # ys" by (cases "drop k c'") auto
      then have "y \<in> set c'" by (metis in_set_dropD list.set_intros(1))
      with cx have "y \<noteq> CHR '' ''" by auto
      then show "run (Close # Lit '' :'' # ?rest) (drop k c' @ '' :'' @ pre @ r @ CRLF) (p + k) hs = None"
        by (simp add: d)
    next
      show "run (Star (Not (CHR '' '')) # Close # Lit '' :'' # ?rest)
          ('' :'' @ pre @ r @ CRLF) (p + length c') hs
        = run (Close # Lit '' :'' # ?rest) ('' :'' @ pre @ r @ CRLF) (p + length c') hs"
        by simp
    qed
  qed
  have "run (chat_tail pre) ('' PRIVMSG #'' @ c @ '' :'' @ pre @ r @ CRLF) q gs
      = run (Star (Not (CHR '' '')) # Close # Lit '' :'' # ?rest)
          (c' @ '' :'' @ pre @ r @ CRLF) (q + 11) (gs @ [(Some ''channel'', q + 10, q + 10)])"
    using cx by (simp add: chat_tail_def eval_nat_numeral)
  also have "\<dots> = run (Close # Lit '' :'' # ?rest) ('' :'' @ pre @ r @ CRLF) (q + 11 + length c')
      (gs @ [(Some ''channel'', q + 10, q + 10)])"
    by (rule star)
  also have "\<dots> = Some (q + 11 + length c' + 2 + length pre + length r + 2,
      gs @ [(Some ''channel'', q + 10, q + 11 + length c'),
            (Some ''msg'', q + 11 + length c' + 2, q + 11 + length c' + 2 + length pre + length r)])"
    by (rule after)
  finally show ?thesis using cx by simp
qed

lemma span_mid: "length a = i \<Longrightarrow> length x = k \<Longrightarrow> take k (drop i (a @ x @ b)) = x"
  by simp

lemma star_unique:
  assumes "\<forall>x \<in> set xs. accepts c x"
    and "run ts t (p + length xs) gs = Some R"
    and "\<And>k. 0 < k \<Longrightarrow> k \<le> length t \<Longrightarrow> run ts (drop k t) (p + length xs + k) gs = None"
  shows "run (Star c # ts) (xs @ t) p gs = Some R"
proof -
  have "run (Star c # ts) t (p + length xs) gs = run ts t (p + length xs) gs"
    using assms(3) by (rule star_later_fail)
  with assms(2) have "run (Star c # ts) t (p + length xs) gs = Some R" by simp
  with assms(1) show ?thesis by (rule star_app_Some)
qed

lemma chat_match:
  assumes u: "u \<noteq> []" "CHR ''!'' \<notin> set u" and j: "LF \<notin> set j"
    and c: "c \<noteq> []" "CHR '' '' \<notin> set c" and r: "LF \<notin> set r"
    and b: "\<not> sublist '' PRIVMSG #'' (pre @ r)"
  shows "re_match (Bol # Lit '':'' # Open (Some ''user'') # Plus (Not (CHR ''!'')) # Close # Star Dot
                   # chat_tail pre)
           ('':'' @ u @ ''!'' @ j @ '' PRIVMSG #'' @ c @ '' :'' @ pre @ r @ CRLF)
         = Some \<lparr>whole = '':'' @ u @ ''!'' @ j @ '' PRIVMSG #'' @ c @ '' :'' @ pre @ r @ CRLF,
                 grps = [(Some ''user'', u), (Some ''channel'', c), (Some ''msg'', pre @ r)]\<rparr>"
proof -
  define t where "t = '' PRIVMSG #'' @ c @ '' :'' @ pre @ r @ CRLF"
  define n where "n = length u + length j + 2"
  define R where "R = (n + (length c + length pre + length r + 14),
             [(Some ''user'', 1, 1 + length u),
              (Some ''channel'', n + 10, n + 10 + length c),
              (Some ''msg'', n + 12 + length c, n + 12 + length c + length pre + length r)])"
  from u obtain x u' where ux: "u = x # u'" "x \<noteq> CHR ''!''" "CHR ''!'' \<notin> set u'"
    by (cases u) auto
  have target: "run (chat_tail pre) t n [(Some ''user'', 1, 1 + length u)] = Some R"
    unfolding t_def R_def
    using chat_tail_target [OF c r, of pre n "[(Some ''user'', 1, 1 + length u)]"] by simp
  have later: "run (chat_tail pre) (drop k t) q gs = None" if "0 < k" for k q gs
  proof -
    have "strip '' PRIVMSG #'' (drop k ('' PRIVMSG #'' @ c @ '' :'' @ (pre @ r) @ CRLF)) = None"
      using c(2) b that by (rule no_later_privmsg)
    then have "strip '' PRIVMSG #'' (drop k t) = None"
      unfolding t_def by (simp only: append_assoc)
    then show ?thesis by (simp add: chat_tail_def)
  qed
  have dot: "run (Star Dot # chat_tail pre) ((CHR ''!'' # j) @ t) (1 + length u)
      [(Some ''user'', 1, 1 + length u)] = Some R"
  proof (rule star_unique)
    show "\<forall>x \<in> set (CHR ''!'' # j). accepts Dot x" using j by auto
    show "run (chat_tail pre) t (1 + length u + length (CHR ''!'' # j))
        [(Some ''user'', 1, 1 + length u)] = Some R"
      using target by (simp add: n_def)
  qed (rule later)
  have "run (Star (Not (CHR ''!'')) # Close # Star Dot # chat_tail pre) (u' @ (CHR ''!'' # j) @ t) 2
      [(Some ''user'', 1, 1)] = Some R"
  proof (rule star_app_Some)
    show "\<forall>x \<in> set u'. accepts (Not (CHR ''!'')) x" using ux by auto
    show "run (Star (Not (CHR ''!'')) # Close # Star Dot # chat_tail pre) ((CHR ''!'' # j) @ t)
        (2 + length u') [(Some ''user'', 1, 1)] = Some R"
      using dot ux by simp
  qed
  then have "run (Bol # Lit '':'' # Open (Some ''user'') # Plus (Not (CHR ''!'')) # Close # Star Dot
                   # chat_tail pre) ('':'' @ u @ ''!'' @ j @ t) 0 [] = Some R"
    using ux by (simp add: eval_nat_numeral)
  moreover have "take (length u) (drop 1 ('':'' @ u @ ''!'' @ j @ t)) = u"
    by simp
  moreover have "take (length c) (drop (n + 10) ('':'' @ u @ ''!'' @ j @ t)) = c"
    unfolding t_def
    using span_mid [of "'':'' @ u @ ''!'' @ j @ '' PRIVMSG #''" "n + 10" c "length c"
        "'' :'' @ pre @ r @ CRLF"]
    by (simp add: n_def)
  moreover have "take (length pre + length r) (drop (n + 12 + length c) ('':'' @ u @ ''!'' @ j @ t))
      = pre @ r"
    unfolding t_def
    using span_mid [of "'':'' @ u @ ''!'' @ j @ '' PRIVMSG #'' @ c @ '' :''" "n + 12 + length c"
        "pre @ r" "length pre + length r" CRLF]
    by (simp add: n_def)
  moreover have "take (n + (length c + length pre + length r + 14)) ('':'' @ u @ ''!'' @ j @ t)
      = '':'' @ u @ ''!'' @ j @ t"
    unfolding t_def by (simp add: n_def)
  ultimately have "re_match (Bol # Lit '':'' # Open (Some ''user'') # Plus (Not (CHR ''!'')) # Close
        # Star Dot # chat_tail pre) ('':'' @ u @ ''!'' @ j @ t)
      = Some \<lparr>whole = '':'' @ u @ ''!'' @ j @ t,
               grps = [(Some ''user'', u), (Some ''channel'', c), (Some ''msg'', pre @ r)]\<rparr>"
    unfolding re_match_def R_def by (simp add: span_text_def)
  then show ?thesis unfolding t_def .
qed

lemma length_close_last [simp]: "length (close_last p gs) = length gs"
  by (induction p gs rule: close_last.induct) auto

lemma run_length:
  "run ts s p gs = Some (e, gs') \<Longrightarrow> length gs' = length gs + opens ts"
  by (induction ts s p gs rule: run.induct) (auto split: if_splits option.splits)

lemma re_match_groups:
  "re_match pat s = Some m \<Longrightarrow> length (grps m) = opens pat"
  by (auto simp: re_match_def split: option.splits dest: run_length)

lemma group_ok: "k \<le> length (grps m) \<Longrightarrow> \<exists>g. group m k = Inr g"
  by (simp add: group_def)

lemma sent_print [simp]: "sent (print l w) = sent w"
  by (simp add: print_def)

lemma sent_send [simp]: "sent (send msg quiet w) = sent w @ [msg]"
  by (simp add: send_def)

lemma sent_recv [simp]: "sent (snd (recv quiet w)) = sent w"
  by (simp add: recv_def split: prod.splits)

lemma deliver_sent:
  "\<exists>w'. deliver config quiet e res w = Inr w' \<and> sent w' = sent w @ [res]"
proof (cases "re_match SEND_MSG_RE res")
  case None
  then show ?thesis by (simp add: deliver_def)
next
  case (Some m)
  then have "length (grps m) = 1"
    by (auto dest: re_match_groups simp: SEND_MSG_RE_def)
  then obtain g where "group m 1 = Inr g"
    using group_ok [of 1 m] by auto
  with Some show ?thesis by (simp add: deliver_def)
qed

lemma star_None:
  "(\<And>k q hs. run ts (drop k s) q hs = None) \<Longrightarrow> run (Star c # ts) s p gs = None"
proof (induction s arbitrary: p)
  case Nil
  then show ?case using Nil [of 0] by simp
next
  case (Cons x s)
  have "run (Star c # ts) s (Suc p) gs = None"
  proof (rule Cons.IH)
    fix k q hs show "run ts (drop k s) q hs = None"
      using Cons.prems [of "Suc k"] by simp
  qed
  moreover have "run ts (x # s) p gs = None"
    using Cons.prems [of 0] by simp
  ultimately show ?case by simp
qed

lemma star_close_star_None:
  assumes "\<And>k q hs. run ts (drop k s) q hs = None"
  shows "run (Star a # Close # Star b # ts) s p gs = None"
  using assms
proof (induction s arbitrary: p)
  case Nil
  then show ?case using Nil [of 0] by simp
next
  case (Cons x s)
  have "run (Star a # Close # Star b # ts) s (Suc p) gs = None"
  proof (rule Cons.IH)
    fix k q hs show "run ts (drop k s) q hs = None"
      using Cons.prems [of "Suc k"] by simp
  qed
  moreover have "run (Star b # ts) (x # s) p (close_last p gs) = None"
    using Cons.prems by (rule star_None)
  ultimately show ?case by simp
qed

lemma plus_close_star_None:
  assumes "\<And>k q hs. run ts (drop k s) q hs = None"
  shows "run (Plus a # Close # Star b # ts) s p gs = None"
proof (cases s)
  case Nil
  then show ?thesis by simp
next
  case (Cons x s')
  have "run (Star a # Close # Star b # ts) s' (Suc p) gs = None"
  proof (rule star_close_star_None)
    fix k q hs show "run ts (drop k s') q hs = None"
      using assms [of "Suc k"] Cons by simp
  qed
  with Cons show ?thesis by simp
qed

lemma channel_star:
  assumes "CHR '' '' \<notin> set c"
  shows "run (Star (Not (CHR '' '')) # Close # Lit '' :'' # ts) (c @ '' :'' @ z) p hs
         = run (Close # Lit '' :'' # ts) ('' :'' @ z) (p + length c) hs"
proof (rule star_exact)
  show "\<forall>x \<in> set c. accepts (Not (CHR '' '')) x" using assms by auto
next
  fix k assume "k < length c"
  then obtain y ys where d: "drop k c = y # ys" by (cases "drop k c") auto
  then have "y \<in> set c" by (metis in_set_dropD list.set_intros(1))
  with assms have "y \<noteq> CHR '' ''" by auto
  then show "run (Close # Lit '' :'' # ts) (drop k c @ '' :'' @ z) (p + k) hs = None"
    by (simp add: d)
next
  show "run (Star (Not (CHR '' '')) # Close # Lit '' :'' # ts) ('' :'' @ z) (p + length c) hs
        = run (Close # Lit '' :'' # ts) ('' :'' @ z) (p + length c) hs"
    by simp
qed

lemma chat_tail_mismatch:
  assumes c: "CHR '' '' \<notin> set c" and m: "strip pre (body @ CRLF) = None"
  shows "run (chat_tail pre) ('' PRIVMSG #'' @ c @ '' :'' @ body @ CRLF) q gs = None"
proof (cases c)
  case Nil
  then show ?thesis by (simp add: chat_tail_def)
next
  case (Cons x c')
  let ?rest = "[Open (Some ''msg''), Lit pre, Star Dot, Close, Lit CRLF, Eol]"
  from Cons c have x: "x \<noteq> CHR '' ''" "CHR '' '' \<notin> set c'" by auto
  have "run (chat_tail pre) ('' PRIVMSG #'' @ c @ '' :'' @ body @ CRLF) q gs
      = run (Star (Not (CHR '' '')) # Close # Lit '' :'' # ?rest)
          (c' @ '' :'' @ body @ CRLF) (q + 11) (gs @ [(Some ''channel'', q + 10, q + 10)])"
    using Cons x by (simp add: chat_tail_def eval_nat_numeral)
  also have "\<dots> = run (Close # Lit '' :'' # ?rest) ('' :'' @ body @ CRLF) (q + 11 + length c')
      (gs @ [(Some ''channel'', q + 10, q + 10)])"
    using x(2) by (rule channel_star)
  also have "\<dots> = None"
    using m by simp
  finally show ?thesis .
qed

lemma chat_no_match:
  assumes u: "CHR '' '' \<notin> set u" and j: "CHR '' '' \<notin> set j" and c: "CHR '' '' \<notin> set c"
    and b: "\<not> sublist '' PRIVMSG #'' body" and m: "strip pre (body @ CRLF) = None"
  shows "re_match (Bol # Lit '':'' # Open (Some ''user'') # Plus (Not (CHR ''!'')) # Close # Star Dot
                   # chat_tail pre)
           ('':'' @ u @ ''!'' @ j @ '' PRIVMSG #'' @ c @ '' :'' @ body @ CRLF) = None"
proof -
  define t where "t = '' PRIVMSG #'' @ c @ '' :'' @ body @ CRLF"
  define h where "h = u @ ''!'' @ j"
  have h: "CHR '' '' \<notin> set h" using u j by (simp add: h_def)
  have nowhere: "run (chat_tail pre) (drop k (h @ t)) q hs = None" for k q hs
  proof -
    consider "k < length h" | "k = length h" | "length h < k" by linarith
    then show ?thesis
    proof cases
      case 1
      then obtain y ys where d: "drop k h = y # ys" by (cases "drop k h") auto
      then have "y \<in> set h" by (metis in_set_dropD list.set_intros(1))
      with h have "y \<noteq> CHR '' ''" by auto
      with 1 d show ?thesis by (simp add: chat_tail_def)
    next
      case 2
      then show ?thesis unfolding t_def using chat_tail_mismatch [OF c m] by simp
    next
      case 3
      then have "strip '' PRIVMSG #'' (drop (k - length h) t) = None"
        unfolding t_def using c b by (intro no_later_privmsg) auto
      with 3 show ?thesis by (simp add: chat_tail_def)
    qed
  qed
  have "run (Plus (Not (CHR ''!'')) # Close # Star Dot # chat_tail pre) (h @ t) 1
      [(Some ''user'', 1, 1)] = None"
    using nowhere by (rule plus_close_star_None)
  then have "run (Bol # Lit '':'' # Open (Some ''user'') # Plus (Not (CHR ''!'')) # Close # Star Dot
                   # chat_tail pre) ('':'' @ h @ t) 0 [] = None"
    by simp
  then show ?thesis
    unfolding h_def t_def by (simp add: re_match_def)
qed

subsection \<open>Escaping and formatting\<close>

lemma esc_Nil [simp]: "esc [] = []"
  by (simp add: esc_def replace_chr_def)

lemma esc_Cons:
  "esc (x # s) = (if x = CHR ''{'' then ''{{'' else if x = CHR ''}'' then ''}}'' else [x]) @ esc s"
  by (simp add: esc_def replace_chr_def)

lemma format_esc: "py_format kw (esc s) = Inr s"
  by (induction s) (simp_all add: esc_Cons)

lemma format_pong_esc: "py_format kw (''PONG '' @ esc s) = Inr (''PONG '' @ s)"
  by (simp add: format_esc)

lemma privmsg_format:
  "kw ''channel'' = Some ch \<Longrightarrow> kw ''msg'' = Some m \<Longrightarrow>
   py_format kw PRIVMSG = Inr (''PRIVMSG #'' @ ch @ '' :'' @ m @ CRLF)"
  by (simp add: PRIVMSG_def get_field_def)

lemma msg_ping_call:
  assumes "grps m = [(Some ''user'', u), (Some ''channel'', c), (Some ''msg'', body)]"
  shows "msg_ping m = Inr (MessageResponse m (''PONG '' @ esc (snd (snd (str_partition (CHR '' '') body)))))"
    and "call (MessageResponse m (''PONG '' @ esc rest)) config e
         = Inr (Some (''PRIVMSG #'' @ c @ '' :PONG '' @ rest @ CRLF))"
  using assms
  by (simp_all add: msg_ping_def groups_def groupdict_def format_esc privmsg_format
      split: prod.splits)

lemma str_partition_no_sep: "sep \<notin> set s \<Longrightarrow> str_partition sep s = (s, [], [])"
  by (induction s) auto

subsection \<open>The table and one pass of the loop\<close>

lemma HANDLERS_unfold:
  "HANDLERS =
     [([Bol, Lit ''PING '', Open None, Star Dot, Close, Lit CRLF, Eol], pong),
      (Bol # Lit '':'' # Open (Some ''user'') # Plus (Not (CHR ''!'')) # Close # Star Dot
         # chat_tail ''!uptime'', cmd_uptime),
      (Bol # Lit '':'' # Open (Some ''user'') # Plus (Not (CHR ''!'')) # Close # Star Dot
         # chat_tail ''PING'', msg_ping)]"
  by (simp add: HANDLERS_def handler_def handle_message_def chat_tail_def)

text \<open>
  One pass of the loop on a line: whatever the log entry for a chat line is, the pass
  sends what the \<open>for\<close> loop sends.
\<close>

lemma iteration_sent:
  assumes line: "readline (inbox w) = (line, rest)"
    and loop: "\<And>w0. sent w0 = sent w \<Longrightarrow>
      \<exists>w'. for_handlers config quiet e rules line w0 = Inr w' \<and> sent w' = sent w @ out"
  shows "\<exists>w'. iteration rules config quiet e w = Inr w' \<and> sent w' = sent w @ out"
proof -
  obtain w1 where w1: "recv quiet w = (line, w1)" "sent w1 = sent w"
    using line by (simp add: recv_def)
  show ?thesis
  proof (cases "re_match MSG_RE line")
    case None
    with w1 loop [of w1] show ?thesis by (simp add: iteration_def)
  next
    case (Some mm)
    then have "length (grps mm) = 2"
      by (auto dest: re_match_groups simp: MSG_RE_def)
    then obtain g1 g2 where g: "group mm 1 = Inr g1" "group mm 2 = Inr g2"
      using group_ok [of 1 mm] group_ok [of 2 mm] by auto
    have "sent (print (dt_str e @ ''<'' @ g1 @ ''> '' @ g2 @ [LF]) w1) = sent w"
      using w1 by simp
    from loop [OF this] w1 Some g show ?thesis by (simp add: iteration_def)
  qed
qed

lemma respond_sent:
  assumes "func m = Inr r" and "call r config e = Inr (Some res)"
  shows "\<exists>w'. respond config quiet e func m w = Inr w' \<and> sent w' = sent w @ [res]"
  using assms deliver_sent [of config quiet e res w] by (simp add: respond_def)

lemmas run_defs = iteration_def recv_def fresh_def test_config_def test_env_def HANDLERS_def handler_def
  handle_message_def re_match_def MSG_RE_def respond_def pong_def group_def groups_def span_text_def
  deliver_def SEND_MSG_RE_def send_def msg_ping_def esc_def replace_chr_def groupdict_def PRIVMSG_def
  get_field_def print_def dt_str_def pad02_def digit_chr_def cmd_uptime_def uptime_def units_def
  timedelta_seconds_def

subsection \<open>The uptime response\<close>

lemma uptime_parts_hms: "uptime_parts units s [] = hms s"
  by (simp add: units_def hms_def shown_def mod_mod_cancel)

lemma uptime_offline:
  "status e = Inr [] \<Longrightarrow>
   call UptimeResponse config e =
     Inr (Some (''PRIVMSG #'' @ channel config @ '' :not currently streaming!'' @ CRLF))"
  by (simp add: uptime_def privmsg_format)

lemma uptime_streaming:
  "status e = Inr (Inr start # ds) \<Longrightarrow>
   call UptimeResponse config e =
     Inr (Some (''PRIVMSG #'' @ channel config @ '' :streaming for: ''
                @ join '', '' (hms (timedelta_seconds (utcnow e) start)) @ CRLF))"
  by (simp add: uptime_def privmsg_format uptime_parts_hms del: uptime_parts.simps)

lemma timedelta_seconds_days:
  "s < 86400 \<Longrightarrow> timedelta_seconds (start + (int d * 86400 + int s) * 1000000) start = s"
  by (simp add: timedelta_seconds_def)

lemma timedelta_seconds_elapsed:
  assumes "0 \<le> us" "us < 1000000" "d < 86400"
  shows "timedelta_seconds (start + int d * 1000000 + us) start = d"
proof -
  have "(int d * 1000000 + us) div 1000000 = int d"
    using assms(1,2) by simp
  moreover have "start + int d * 1000000 + us - start = int d * 1000000 + us" by simp
  ultimately show ?thesis using assms(3) by (simp add: timedelta_seconds_def)
qed

subsection \<open>Dispatch and errors\<close>

lemma for_handlers_first:
  assumes "\<forall>r \<in> set before. re_match (fst r) msg = None" and "re_match pat msg = Some m"
  shows "for_handlers config quiet e (before @ (pat, func) # later) msg w
         = respond config quiet e func m w"
  using assms by (induction before) auto

lemma deliver_effect:
  "\<exists>w'. deliver config quiet e res w = Inr w' \<and> sent w' = sent w @ [res]
     \<and> stderr w' = stderr w @ (if quiet then [] else [Text (''< '' @ res)])
     \<and> inbox w' = inbox w"
proof (cases "re_match SEND_MSG_RE res")
  case None
  then show ?thesis by (simp add: deliver_def send_def)
next
  case (Some m)
  then have "length (grps m) = 1"
    by (auto dest: re_match_groups simp: SEND_MSG_RE_def)
  then obtain g where "group m 1 = Inr g"
    using group_ok [of 1 m] by auto
  with Some show ?thesis by (simp add: deliver_def send_def print_def)
qed

lemma respond_error:
  assumes "func m = Inl x \<or> (\<exists>r. func m = Inr r \<and> call r config e = Inl x)"
  shows "\<exists>w'. respond config quiet e func m w = Inr w'
     \<and> sent w' = sent w @ [''PRIVMSG #'' @ channel config @ '' :*** unhandled '' @ exn_name x
                            @ '' -- see logs'' @ CRLF]
     \<and> stderr w' = stderr w @ [Traceback x]
          @ (if quiet then [] else [Text (''< '' @ ''PRIVMSG #'' @ channel config
               @ '' :*** unhandled '' @ exn_name x @ '' -- see logs'' @ CRLF)])
     \<and> inbox w' = inbox w"
proof -
  let ?res = "''PRIVMSG #'' @ channel config @ '' :*** unhandled '' @ exn_name x
      @ '' -- see logs'' @ CRLF"
  have f: "py_format [''channel'' \<mapsto> channel config,
        ''msg'' \<mapsto> ''*** unhandled '' @ exn_name x @ '' -- see logs''] PRIVMSG = Inr ?res"
    using privmsg_format [of "[''channel'' \<mapsto> channel config,
        ''msg'' \<mapsto> ''*** unhandled '' @ exn_name x @ '' -- see logs'']"] by simp
  have "respond config quiet e func m w
      = deliver config quiet e ?res (w\<lparr>stderr := stderr w @ [Traceback x]\<rparr>)"
    using assms f by (auto simp: respond_def)
  then show ?thesis
    using deliver_effect [of config quiet e ?res "w\<lparr>stderr := stderr w @ [Traceback x]\<rparr>"]
    by simp
qed

lemma iteration_cases:
  assumes "readline (inbox w) = (line, rest)"
  shows "\<exists>w0. sent w0 = sent w
      \<and> stderr w0 = stderr w @ (if quiet then [] else [Text (''> '' @ line)])
      \<and> inbox w0 = rest
      \<and> iteration rules config quiet e w = for_handlers config quiet e rules line w0"
proof -
  obtain w1 where w1: "recv quiet w = (line, w1)" "sent w1 = sent w"
      "stderr w1 = stderr w @ (if quiet then [] else [Text (''> '' @ line)])" "inbox w1 = rest"
    using assms by (simp add: recv_def)
  show ?thesis
  proof (cases "re_match MSG_RE line")
    case None
    with w1 show ?thesis by (auto simp: iteration_def)
  next
    case (Some mm)
    then have "length (grps mm) = 2"
      by (auto dest: re_match_groups simp: MSG_RE_def)
    then obtain g1 g2 where g: "group mm 1 = Inr g1" "group mm 2 = Inr g2"
      using group_ok [of 1 mm] group_ok [of 2 mm] by auto
    let ?w = "print (dt_str e @ ''<'' @ g1 @ ''> '' @ g2 @ [LF]) w1"
    have "sent ?w = sent w \<and> stderr ?w = stderr w @ (if quiet then [] else [Text (''> '' @ line)])
        \<and> inbox ?w = rest"
      using w1 by (simp add: print_def)
    moreover have "iteration rules config quiet e w = for_handlers config quiet e rules line ?w"
      using w1 Some g by (simp add: iteration_def)
    ultimately show ?thesis by blast
  qed
qed

lemmas eval_defs = run_defs hms_def shown_def

subsection \<open>The token and what a run shows\<close>

lemma call_token: "call r (config\<lparr>oauth_token := t\<rparr>) e = call r config e"
  by (cases r) (simp_all add: uptime_def split: sum.splits list.splits)

lemma deliver_token:
  "deliver (config\<lparr>oauth_token := t\<rparr>) quiet e res w = deliver config quiet e res w"
  by (simp add: deliver_def split: option.splits sum.splits)

lemma respond_token:
  "respond (config\<lparr>oauth_token := t\<rparr>) quiet e func m w = respond config quiet e func m w"
  by (simp add: respond_def call_token deliver_token split: option.splits sum.splits)

lemma for_handlers_token:
  "for_handlers (config\<lparr>oauth_token := t\<rparr>) quiet e rules msg w
   = for_handlers config quiet e rules msg w"
  by (induction rules) (auto simp: respond_token split: option.splits)

lemma iteration_token:
  "iteration rules (config\<lparr>oauth_token := t\<rparr>) quiet e w = iteration rules config quiet e w"
  by (simp add: iteration_def for_handlers_token split: option.splits sum.splits prod.splits)

lemma while_true_token:
  "while_true rules (config\<lparr>oauth_token := t\<rparr>) quiet es w = while_true rules config quiet es w"
  by (induction es arbitrary: w) (simp_all add: iteration_token split: sum.splits)

lemma deliver_obs:
  "obs w1 = obs w2 \<Longrightarrow>
   map_sum id obs (deliver config quiet e res w1) = map_sum id obs (deliver config quiet e res w2)"
  by (auto simp: deliver_def obs_def send_def print_def split: option.splits sum.splits)

lemma respond_obs:
  "obs w1 = obs w2 \<Longrightarrow>
   map_sum id obs (respond config quiet e func m w1) = map_sum id obs (respond config quiet e func m w2)"
proof -
  assume o: "obs w1 = obs w2"
  have "obs (w1\<lparr>stderr := stderr w1 @ [Traceback x]\<rparr>) = obs (w2\<lparr>stderr := stderr w2 @ [Traceback x]\<rparr>)"
    for x using o by (simp add: obs_def)
  then show ?thesis
    using o by (auto simp: respond_def split: sum.splits option.splits intro: deliver_obs)
qed

lemma for_handlers_obs:
  "obs w1 = obs w2 \<Longrightarrow>
   map_sum id obs (for_handlers config quiet e rules msg w1)
   = map_sum id obs (for_handlers config quiet e rules msg w2)"
proof (induction rules)
  case Nil
  then show ?case by (simp add: obs_def print_def)
next
  case (Cons r rules)
  obtain pat func where r: "r = (pat, func)" by (cases r)
  show ?case
  proof (cases "re_match pat msg")
    case None
    with Cons r show ?thesis by simp
  next
    case (Some m)
    with r have "for_handlers config quiet e (r # rules) msg w1 = respond config quiet e func m w1"
      and "for_handlers config quiet e (r # rules) msg w2 = respond config quiet e func m w2"
      by simp_all
    then show ?thesis using respond_obs [OF Cons.prems] by (simp only:)
  qed
qed

lemma iteration_obs:
  assumes "obs w1 = obs w2"
  shows "map_sum id obs (iteration rules config quiet e w1)
         = map_sum id obs (iteration rules config quiet e w2)"
proof -
  obtain line rest where l: "readline (inbox w1) = (line, rest)" by (cases "readline (inbox w1)")
  with assms have l2: "readline (inbox w2) = (line, rest)" by (simp add: obs_def)
  define u1 where "u1 = snd (recv quiet w1)"
  define u2 where "u2 = snd (recv quiet w2)"
  have r: "recv quiet w1 = (line, u1)" "recv quiet w2 = (line, u2)"
    using l l2 by (simp_all add: recv_def u1_def u2_def)
  have o: "obs u1 = obs u2"
    using assms l l2 by (simp add: recv_def u1_def u2_def obs_def)
  then have "obs (print s u1) = obs (print s u2)" for s
    by (simp add: obs_def print_def)
  with o r show ?thesis
    by (auto simp: iteration_def split: option.splits sum.splits intro: for_handlers_obs)
qed

lemma while_true_obs:
  "obs w1 = obs w2 \<Longrightarrow>
   map_sum id obs (while_true rules config quiet es w1)
   = map_sum id obs (while_true rules config quiet es w2)"
proof (induction es arbitrary: w1 w2)
  case Nil
  then show ?case by simp
next
  case (Cons e es)
  have it: "map_sum id obs (iteration rules config quiet e w1)
      = map_sum id obs (iteration rules config quiet e w2)"
    using Cons.prems by (rule iteration_obs)
  show ?case
  proof (cases "iteration rules config quiet e w1")
    case (Inl x)
    with it have "iteration rules config quiet e w2 = Inl x"
      by (cases "iteration rules config quiet e w2") auto
    with Inl show ?thesis by simp
  next
    case (Inr v1)
    with it obtain v2 where v2: "iteration rules config quiet e w2 = Inr v2" "obs v1 = obs v2"
      by (cases "iteration rules config quiet e w2") auto
    with Inr Cons.IH [OF v2(2)] show ?thesis by simp
  qed
qed

lemma respond_sent_prefix:
  "respond config quiet e func m w = Inr w' \<Longrightarrow> prefix (sent w) (sent w')"
proof -
  assume a: "respond config quiet e func m w = Inr w'"
  have d: "deliver config quiet e res v = Inr w' \<Longrightarrow> sent v = sent w \<Longrightarrow> prefix (sent w) (sent w')"
    for res v
    using deliver_effect [of config quiet e res v] by auto
  from a show ?thesis
    by (auto simp: respond_def split: sum.splits option.splits dest: d)
qed

lemma for_handlers_sent_prefix:
  "for_handlers config quiet e rules msg w = Inr w' \<Longrightarrow> prefix (sent w) (sent w')"
  by (induction rules) (auto simp: print_def split: option.splits dest: respond_sent_prefix)

lemma iteration_sent_prefix:
  assumes "iteration rules config quiet e w = Inr w'"
  shows "prefix (sent w) (sent w')"
proof -
  obtain line rest where "readline (inbox w) = (line, rest)" by (cases "readline (inbox w)")
  from iteration_cases [OF this, of quiet rules config e] assms
  obtain w0 where "sent w0 = sent w" "for_handlers config quiet e rules line w0 = Inr w'"
    by auto
  then show ?thesis using for_handlers_sent_prefix [of config quiet e rules line w0 w'] by simp
qed

lemma while_true_sent_prefix:
  "while_true rules config quiet es w = Inr w' \<Longrightarrow> prefix (sent w) (sent w')"
proof (induction es arbitrary: w)
  case Nil
  then show ?case by simp
next
  case (Cons e es)
  then obtain v where v: "iteration rules config quiet e w = Inr v"
      "while_true rules config quiet es v = Inr w'"
    by (auto split: sum.splits)
  from iteration_sent_prefix [OF v(1)] Cons.IH [OF v(2)] show ?case
    by (rule prefix_order.trans)
qed

subsection \<open>The end of a pattern\<close>

text \<open>A successful run of a pattern has run its last tokens on some rest of the subject.\<close>

lemma run_reaches_tail_aux:
  "run us s p gs = Some R \<Longrightarrow> ts @ tail = us \<Longrightarrow>
   \<exists>k hs. k \<le> length s \<and> run tail (drop k s) (p + k) hs = Some R"
proof (induction us s p gs arbitrary: ts rule: run.induct)
  case (1 s p gs)
  then show ?case by (intro exI [of _ 0]) auto
next
  case (2 us s p gs)
  show ?case
  proof (cases ts)
    case Nil
    with 2 show ?thesis by (intro exI [of _ 0] exI [of _ gs]) simp
  next
    case (Cons t ts')
    with 2 show ?thesis by (auto split: if_splits)
  qed
next
  case (3 us s p gs)
  show ?case
  proof (cases ts)
    case Nil
    with 3 show ?thesis by (intro exI [of _ 0] exI [of _ gs]) simp
  next
    case (Cons t ts')
    with 3 show ?thesis by (auto split: if_splits)
  qed
next
  case (4 l us s p gs)
  show ?case
  proof (cases ts)
    case Nil
    with 4 show ?thesis by (intro exI [of _ 0] exI [of _ gs]) simp
  next
    case (Cons t ts')
    from "4.prems" obtain s' where s': "strip l s = Some s'" "run us s' (p + length l) gs = Some R"
      by (auto split: option.splits)
    then have s: "s = l @ s'" by (simp add: strip_Some_iff)
    from Cons "4.prems" have "ts' @ tail = us" by simp
    from "4.IH" [OF s' this] obtain k hs where "k \<le> length s'"
        "run tail (drop k s') (p + length l + k) hs = Some R"
      by blast
    with s show ?thesis
      by (intro exI [of _ "length l + k"] exI [of _ hs]) (simp add: add.assoc)
  qed
next
  case (5 n us s p gs)
  show ?case
  proof (cases ts)
    case Nil
    with 5 show ?thesis by (intro exI [of _ 0] exI [of _ gs]) simp
  next
    case (Cons t ts')
    with 5 show ?thesis by auto
  qed
next
  case (6 us s p gs)
  show ?case
  proof (cases ts)
    case Nil
    with 6 show ?thesis by (intro exI [of _ 0] exI [of _ gs]) simp
  next
    case (Cons t ts')
    with 6 show ?thesis by auto
  qed
next
  case (7 c us p gs)
  then show ?case by simp
next
  case (8 c us x s p gs)
  show ?case
  proof (cases ts)
    case Nil
    with 8 show ?thesis by (intro exI [of _ 0] exI [of _ gs]) simp
  next
    case (Cons t ts')
    from "8.prems" have a: "accepts c x" and r: "run (Star c # us) s (Suc p) gs = Some R"
      by (auto split: if_splits)
    from Cons "8.prems" have "(Star c # ts') @ tail = Star c # us" by simp
    from "8.IH" [OF a r this] obtain k hs where "k \<le> length s"
        "run tail (drop k s) (Suc p + k) hs = Some R"
      by auto
    then show ?thesis
      by (intro exI [of _ "Suc k"] exI [of _ hs]) simp
  qed
next
  case (9 c us p gs)
  show ?case
  proof (cases ts)
    case Nil
    with 9 show ?thesis by (intro exI [of _ 0] exI [of _ gs]) simp
  next
    case (Cons t ts')
    with 9 show ?thesis by auto
  qed
next
  case (10 c us x s p gs)
  show ?case
  proof (cases ts)
    case Nil
    with 10 show ?thesis by (intro exI [of _ 0] exI [of _ gs]) simp
  next
    case (Cons t ts')
    with "10.prems" have us: "ts' @ tail = us" and t: "t = Star c" by simp_all
    show ?thesis
    proof (cases "accepts c x")
      case False
      with "10.prems" have "run us (x # s) p gs = Some R" by simp
      from "10.IH"(3) [OF False this us] show ?thesis .
    next
      case True
      show ?thesis
      proof (cases "run (Star c # us) s (Suc p) gs")
        case None
        with True "10.prems" have "run us (x # s) p gs = Some R" by simp
        from "10.IH"(2) [OF True None this us] show ?thesis .
      next
        case (Some R')
        with True "10.prems" have r: "run (Star c # us) s (Suc p) gs = Some R" by simp
        from us have "(Star c # ts') @ tail = Star c # us" by simp
        from "10.IH"(1) [OF True r this] obtain k hs where "k \<le> length s"
            "run tail (drop k s) (Suc p + k) hs = Some R"
          by auto
        then show ?thesis
          by (intro exI [of _ "Suc k"] exI [of _ hs]) simp
      qed
    qed
  qed
qed

lemma run_reaches_tail:
  "run (ts @ tail) s p gs = Some R \<Longrightarrow>
   \<exists>k hs. k \<le> length s \<and> run tail (drop k s) (p + k) hs = Some R"
  by (rule run_reaches_tail_aux) simp_all

lemma terminated_match:
  assumes "re_match (pre @ [Lit CRLF, Eol]) s = Some m"
  shows "prefix (whole m) s \<and> suffix CRLF (whole m) \<and> (s = whole m \<or> s = whole m @ [LF])"
proof -
  from assms obtain e gs where r: "run (pre @ [Lit CRLF, Eol]) s 0 [] = Some (e, gs)"
      and w: "whole m = take e s"
    by (auto simp: re_match_def split: option.splits)
  from run_reaches_tail [OF r] obtain k hs where k: "k \<le> length s"
      "run [Lit CRLF, Eol] (drop k s) (0 + k) hs = Some (e, gs)"
    by blast
  then obtain s' where s': "strip CRLF (drop k s) = Some s'" "s' = [] \<or> s' = [LF]" "e = k + 2"
    by (auto split: option.splits if_splits)
  then have d: "drop k s = CRLF @ s'" by (simp add: strip_Some_iff)
  have s: "s = take k s @ CRLF @ s'"
    using d by (metis append_take_drop_id)
  have "take e s = take k s @ CRLF"
  proof -
    have "take e (take k s @ CRLF @ s') = take k s @ CRLF"
      using k(1) s'(3) by simp
    with s show ?thesis by simp
  qed
  with w have wm: "whole m = take k s @ CRLF" by simp
  then have "s = whole m @ s'" using s by simp
  with s'(2) have three: "s = whole m \<or> s = whole m @ [LF]" by auto
  have one: "prefix (whole m) s" unfolding w by (rule take_is_prefix)
  have two: "suffix CRLF (whole m)" unfolding wm by (rule suffixI) simp
  from one two three show ?thesis by blast
qed

subsection \<open>Groups of a chat line and outbound lines\<close>

lemma star_reaches:
  "run (Star c # ts) s p gs = Some R \<Longrightarrow>
   \<exists>k \<le> length s. (\<forall>x \<in> set (take k s). accepts c x) \<and> run ts (drop k s) (p + k) gs = Some R"
proof (induction s arbitrary: p)
  case Nil
  then show ?case by simp
next
  case (Cons x s)
  show ?case
  proof (cases "accepts c x \<and> run (Star c # ts) s (Suc p) gs = Some R")
    case True
    with Cons.IH [of "Suc p"] obtain k where "k \<le> length s" "\<forall>x \<in> set (take k s). accepts c x"
        "run ts (drop k s) (Suc p + k) gs = Some R"
      by blast
    with True show ?thesis
      by (intro exI [of _ "Suc k"]) simp
  next
    case False
    with Cons.prems have "run ts (x # s) p gs = Some R"
      by (auto split: if_splits option.splits)
    then show ?thesis by (intro exI [of _ 0]) simp
  qed
qed

lemma star_close_total: "run [Star c, Close] s p gs \<noteq> None"
proof (induction s arbitrary: p)
  case Nil
  then show ?case by simp
next
  case (Cons x s)
  from Cons [of "Suc p"] obtain R where "run [Star c, Close] s (Suc p) gs = Some R" by auto
  then show ?case by simp
qed

lemma not_recognised_pong: "\<not> recognised (''PONG '' @ payload @ CRLF)"
  by (simp add: recognised_def re_match_def SEND_MSG_RE_def)

lemma recognised_chat_line:
  assumes "ch \<noteq> []" "CHR '' '' \<notin> set ch" "msg \<noteq> []" "hd msg \<noteq> CR"
  shows "recognised (chat_line ch msg)"
proof -
  from assms obtain x ch' where ch: "ch = x # ch'" "x \<noteq> CHR '' ''" "CHR '' '' \<notin> set ch'"
    by (cases ch) auto
  from assms obtain y msg' where msg: "msg = y # msg'" "y \<noteq> CR"
    by (cases msg) auto
  let ?ts = "[Lit '' :'', Open (Some ''msg''), Plus (Not CR), Close]"
  have "run (Star (Not (CHR '' '')) # ?ts) (ch' @ '' :'' @ msg @ CRLF) 10 []
      = run (Star (Not (CHR '' '')) # ?ts) ('' :'' @ msg @ CRLF) (10 + length ch') []"
  proof (rule star_exact)
    show "\<forall>x \<in> set ch'. accepts (Not (CHR '' '')) x" using ch by auto
  next
    fix k assume "k < length ch'"
    then obtain z zs where d: "drop k ch' = z # zs" by (cases "drop k ch'") auto
    then have "z \<in> set ch'" by (metis in_set_dropD list.set_intros(1))
    with ch have "z \<noteq> CHR '' ''" by auto
    then show "run ?ts (drop k ch' @ '' :'' @ msg @ CRLF) (10 + k) [] = None"
      by (simp add: d)
  qed simp
  also have "\<dots> = run [Star (Not CR), Close] (msg' @ CRLF) (13 + length ch')
      [(Some ''msg'', 12 + length ch', 12 + length ch')]"
    using msg by (simp add: eval_nat_numeral)
  finally have "run (Star (Not (CHR '' '')) # ?ts) (ch' @ '' :'' @ msg @ CRLF) 10 [] \<noteq> None"
    using star_close_total by simp
  then have "run SEND_MSG_RE (chat_line ch msg) 0 [] \<noteq> None"
    using ch by (simp add: SEND_MSG_RE_def chat_line_def eval_nat_numeral)
  then show ?thesis
    by (auto simp: recognised_def re_match_def split: option.splits)
qed

lemma plus_reaches:
  "run (Plus c # ts) s p gs = Some R \<Longrightarrow>
   \<exists>x s'. s = x # s' \<and> accepts c x \<and> run (Star c # ts) s' (Suc p) gs = Some R"
  by (cases s) (auto split: if_splits)

lemma lit_reaches:
  "run (Lit l # ts) s p gs = Some R \<Longrightarrow>
   \<exists>s'. s = l @ s' \<and> run ts s' (p + length l) gs = Some R"
  by (auto simp: strip_Some_iff split: option.splits)

lemma chat_tail_groups:
  assumes "run (chat_tail pre) t q hs = Some (e, gs)"
  shows "\<exists>n a b. gs = hs @ [(Some ''channel'', q + 10, q + 10 + n), (Some ''msg'', a, b)]
           \<and> 0 < n \<and> n \<le> length (drop 10 t) \<and> CHR '' '' \<notin> set (take n (drop 10 t))"
proof -
  let ?g = "(Some ''channel'', q + 10, q + 10)"
  from assms have "run (Lit '' PRIVMSG #'' # [Open (Some ''channel''), Plus (Not (CHR '' '')),
      Close, Lit '' :'', Open (Some ''msg''), Lit pre, Star Dot, Close, Lit CRLF, Eol]) t q hs
      = Some (e, gs)"
    unfolding chat_tail_def .
  from lit_reaches [OF this] obtain t1 where t1': "t = '' PRIVMSG #'' @ t1"
      "run [Open (Some ''channel''), Plus (Not (CHR '' '')),
      Close, Lit '' :'', Open (Some ''msg''), Lit pre, Star Dot, Close, Lit CRLF, Eol] t1
      (q + length '' PRIVMSG #'') hs = Some (e, gs)"
    by blast
  then have t1: "t = '' PRIVMSG #'' @ t1"
      "run [Plus (Not (CHR '' '')), Close, Lit '' :'', Open (Some ''msg''), Lit pre, Star Dot,
            Close, Lit CRLF, Eol] t1 (q + 10) (hs @ [?g]) = Some (e, gs)"
    by (simp_all add: eval_nat_numeral)
  from plus_reaches [OF t1(2)] obtain x t2 where t2: "t1 = x # t2" "x \<noteq> CHR '' ''"
      "run [Star (Not (CHR '' '')), Close, Lit '' :'', Open (Some ''msg''), Lit pre, Star Dot,
            Close, Lit CRLF, Eol] t2 (Suc (q + 10)) (hs @ [?g]) = Some (e, gs)"
    by auto
  from star_reaches [OF t2(3)] obtain k where k: "k \<le> length t2"
      "\<forall>x \<in> set (take k t2). accepts (Not (CHR '' '')) x"
      "run [Close, Lit '' :'', Open (Some ''msg''), Lit pre, Star Dot, Close, Lit CRLF, Eol]
         (drop k t2) (Suc (q + 10) + k) (hs @ [?g]) = Some (e, gs)"
    by blast
  let ?c = "(Some ''channel'', q + 10, Suc (q + 10) + k)"
  from k(3) have "run [Lit '' :'', Open (Some ''msg''), Lit pre, Star Dot, Close, Lit CRLF, Eol]
         (drop k t2) (Suc (q + 10) + k) (hs @ [?c]) = Some (e, gs)"
    by simp
  from lit_reaches [OF this] obtain t3 where
      "run [Open (Some ''msg''), Lit pre, Star Dot, Close, Lit CRLF, Eol] t3
         (Suc (q + 10) + k + length '' :'') (hs @ [?c]) = Some (e, gs)"
    by blast
  then obtain a where "run [Lit pre, Star Dot, Close, Lit CRLF, Eol] t3 a
      (hs @ [?c, (Some ''msg'', a, a)]) = Some (e, gs)"
    by simp
  from lit_reaches [OF this] obtain t4 where
      "run [Star Dot, Close, Lit CRLF, Eol] t4 (a + length pre) (hs @ [?c, (Some ''msg'', a, a)])
        = Some (e, gs)"
    by blast
  from star_reaches [OF this] obtain k' where
      "run [Close, Lit CRLF, Eol] (drop k' t4) (a + length pre + k')
         (hs @ [?c, (Some ''msg'', a, a)]) = Some (e, gs)"
    by blast
  then have gs: "gs = hs @ [?c, (Some ''msg'', a, a + length pre + k')]"
    by (auto split: option.splits if_splits)
  have "CHR '' '' \<notin> set (take (Suc k) (drop 10 t))"
    using t1(1) t2(1,2) k(2) by auto
  moreover have "Suc k \<le> length (drop 10 t)"
    using t1(1) t2(1) k(1) by simp
  ultimately show ?thesis using gs
    by (intro exI [of _ "Suc k"] exI [of _ a] exI [of _ "a + length pre + k'"]) simp
qed

lemma chat_groups:
  assumes "re_match (Bol # Lit '':'' # Open (Some ''user'') # Plus (Not (CHR ''!'')) # Close
      # Star Dot # chat_tail pre) s = Some m"
  shows "\<exists>u c b. grps m = [(Some ''user'', u), (Some ''channel'', c), (Some ''msg'', b)]
           \<and> c \<noteq> [] \<and> CHR '' '' \<notin> set c"
proof -
  from assms obtain e gs where r: "run (Bol # Lit '':'' # Open (Some ''user'')
      # Plus (Not (CHR ''!'')) # Close # Star Dot # chat_tail pre) s 0 [] = Some (e, gs)"
      and m: "grps m = map (span_text s) gs"
    by (auto simp: re_match_def split: option.splits)
  from r have "run (Lit '':'' # Open (Some ''user'') # Plus (Not (CHR ''!'')) # Close # Star Dot
      # chat_tail pre) s 0 [] = Some (e, gs)"
    by simp
  from lit_reaches [OF this] obtain s1 where s1: "s = '':'' @ s1"
      "run (Open (Some ''user'') # Plus (Not (CHR ''!'')) # Close # Star Dot # chat_tail pre) s1
        (0 + length '':'') [] = Some (e, gs)"
    by blast
  then have "run (Plus (Not (CHR ''!'')) # Close # Star Dot # chat_tail pre) s1 1
      [(Some ''user'', 1, 1)] = Some (e, gs)"
    by simp
  from plus_reaches [OF this] obtain x s2 where s2: "s1 = x # s2"
      "run (Star (Not (CHR ''!'')) # Close # Star Dot # chat_tail pre) s2 (Suc 1)
        [(Some ''user'', 1, 1)] = Some (e, gs)"
    by blast
  from star_reaches [OF s2(2)] obtain k1 where k1: "k1 \<le> length s2"
      "run (Close # Star Dot # chat_tail pre) (drop k1 s2) (Suc 1 + k1) [(Some ''user'', 1, 1)]
        = Some (e, gs)"
    by blast
  then have "run (Star Dot # chat_tail pre) (drop k1 s2) (Suc 1 + k1)
      [(Some ''user'', 1, Suc 1 + k1)] = Some (e, gs)"
    by simp
  from star_reaches [OF this] obtain k2 where k2: "k2 \<le> length (drop k1 s2)"
      "run (chat_tail pre) (drop k2 (drop k1 s2)) (Suc 1 + k1 + k2)
        [(Some ''user'', 1, Suc 1 + k1)] = Some (e, gs)"
    by blast
  define q where "q = Suc 1 + k1 + k2"
  have t: "drop k2 (drop k1 s2) = drop q s"
    using s1(1) s2(1) by (simp add: q_def add.commute)
  from chat_tail_groups [OF k2(2)] obtain n a b where
      gs: "gs = [(Some ''user'', 1, Suc 1 + k1), (Some ''channel'', q + 10, q + 10 + n),
                 (Some ''msg'', a, b)]"
      and n: "0 < n" "n \<le> length (drop 10 (drop q s))"
        "CHR '' '' \<notin> set (take n (drop 10 (drop q s)))"
    unfolding t q_def [symmetric] by auto
  define c where "c = take n (drop (q + 10) s)"
  have c: "c = take n (drop 10 (drop q s))" by (simp add: c_def add.commute)
  with n have "c \<noteq> []" "CHR '' '' \<notin> set c" by auto
  moreover have "grps m = [(Some ''user'', take (Suc 1 + k1 - 1) (drop 1 s)), (Some ''channel'', c),
      (Some ''msg'', take (b - a) (drop a s))]"
    unfolding m gs by (simp add: span_text_def c_def)
  ultimately show ?thesis by blast
qed

lemma pong_shape:
  "pong m = Inr r \<Longrightarrow> \<exists>payload. r = CmdResponse (''PONG '' @ payload @ CRLF)"
  by (auto simp: pong_def split: sum.splits)

lemma uptime_shape:
  "uptime config e = Inr (Some res) \<Longrightarrow>
   \<exists>msg. res = chat_line (channel config) msg \<and> msg \<noteq> [] \<and> hd msg \<noteq> CR"
  by (auto simp: uptime_def privmsg_format chat_line_def Let_def split: sum.splits list.splits)

lemma msg_ping_shape:
  assumes "grps m = [(Some ''user'', u), (Some ''channel'', c), (Some ''msg'', b)]"
  shows "\<exists>rest. msg_ping m = Inr (MessageResponse m (''PONG '' @ esc rest))
           \<and> call (MessageResponse m (''PONG '' @ esc rest)) config e
               = Inr (Some (chat_line c (''PONG '' @ rest)))"
  using msg_ping_call [OF assms] unfolding chat_line_def by auto

lemma respond_cases:
  assumes "respond config quiet e func m w = Inr w'"
  shows "(\<exists>x. (func m = Inl x \<or> (\<exists>r. func m = Inr r \<and> call r config e = Inl x))
            \<and> sent w' = sent w @ [chat_line (channel config)
                  (''*** unhandled '' @ exn_name x @ '' -- see logs'')])
         \<or> sent w' = sent w
         \<or> (\<exists>r res. func m = Inr r \<and> call r config e = Inr (Some res) \<and> sent w' = sent w @ [res])"
proof (cases "func m")
  case (Inl x)
  with respond_error [where func = func and m = m and x = x and config = config and e = e
      and quiet = quiet and w = w] assms
  show ?thesis by (auto simp: chat_line_def)
next
  case (Inr r)
  show ?thesis
  proof (cases "call r config e")
    case (Inl x)
    with Inr respond_error [where func = func and m = m and x = x and config = config and e = e
        and quiet = quiet and w = w] assms
    show ?thesis by (auto simp: chat_line_def)
  next
    case r2: (Inr out)
    show ?thesis
    proof (cases out)
      case None
      with Inr r2 assms show ?thesis by (simp add: respond_def)
    next
      case (Some res)
      with Inr r2 respond_sent [where func = func and m = m and r = r and config = config
          and e = e and res = res and quiet = quiet and w = w] assms
      show ?thesis by auto
    qed
  qed
qed


section \<open>First match wins\<close>

text \<open>
  C1. For every table of rules and every line: when the line matches the pattern of
  rule \<open>i\<close> and of no rule before it, the \<open>for\<close> loop does exactly what the pipeline of rule
  \<open>i\<close> does on that match, that is, it calls the handler factory of rule \<open>i\<close>, resolves its
  response and sends it. The rules after \<open>i\<close> play no role: replacing them by any other
  rules, matching or not, gives the same result, so no second pipeline runs.
\<close>

theorem first_match_wins:
  assumes "i < length rules"
    and "re_match (fst (rules ! i)) msg = Some m"
    and "\<forall>k < i. re_match (fst (rules ! k)) msg = None"
  shows "for_handlers config quiet e rules msg w = respond config quiet e (snd (rules ! i)) m w
         \<and> for_handlers config quiet e (take (Suc i) rules @ others) msg w
             = respond config quiet e (snd (rules ! i)) m w"
proof -
  have split: "rules = take i rules @ (fst (rules ! i), snd (rules ! i)) # drop (Suc i) rules"
    using assms(1) by (simp add: id_take_nth_drop)
  have before: "\<forall>r \<in> set (take i rules). re_match (fst r) msg = None"
  proof
    fix r assume "r \<in> set (take i rules)"
    then obtain k where k: "k < i" "r = rules ! k"
      using assms(1) by (auto simp: in_set_conv_nth)
    with assms(3) show "re_match (fst r) msg = None" by simp
  qed
  have one: "for_handlers config quiet e
        (take i rules @ (fst (rules ! i), snd (rules ! i)) # drop (Suc i) rules) msg w
      = respond config quiet e (snd (rules ! i)) m w"
    using before assms(2) by (rule for_handlers_first)
  have "take (Suc i) rules @ others
      = take i rules @ (fst (rules ! i), snd (rules ! i)) # others"
    using assms(1) by (simp add: take_Suc_conv_app_nth)
  moreover have "for_handlers config quiet e
        (take i rules @ (fst (rules ! i), snd (rules ! i)) # others) msg w
      = respond config quiet e (snd (rules ! i)) m w"
    using before assms(2) by (rule for_handlers_first)
  ultimately show ?thesis using one split by metis
qed

theorem first_match_wins_witness:
  "re_match (fst ((HANDLERS @ handle_message [''PING''] cmd_uptime) ! 3))
       ('':alice!alice@x PRIVMSG #chan :PING hello'' @ CRLF)
     = Some \<lparr>whole = '':alice!alice@x PRIVMSG #chan :PING hello'' @ CRLF,
             grps = [(Some ''user'', ''alice''), (Some ''channel'', ''chan''),
                     (Some ''msg'', ''PING hello'')]\<rparr>
   \<and> for_handlers test_config True test_env (HANDLERS @ handle_message [''PING''] cmd_uptime)
       ('':alice!alice@x PRIVMSG #chan :PING hello'' @ CRLF) (fresh [])
     = respond test_config True test_env msg_ping
         \<lparr>whole = '':alice!alice@x PRIVMSG #chan :PING hello'' @ CRLF,
          grps = [(Some ''user'', ''alice''), (Some ''channel'', ''chan''),
                  (Some ''msg'', ''PING hello'')]\<rparr> (fresh [])
   \<and> map_sum id sent (respond test_config True test_env msg_ping
         \<lparr>whole = '':alice!alice@x PRIVMSG #chan :PING hello'' @ CRLF,
          grps = [(Some ''user'', ''alice''), (Some ''channel'', ''chan''),
                  (Some ''msg'', ''PING hello'')]\<rparr> (fresh []))
     = Inr [''PRIVMSG #chan :PONG hello'' @ CRLF]"
proof -
  let ?rules = "HANDLERS @ handle_message [''PING''] cmd_uptime"
  let ?l = "'':alice!alice@x PRIVMSG #chan :PING hello'' @ CRLF"
  let ?m = "\<lparr>whole = ?l, grps = [(Some ''user'', ''alice''), (Some ''channel'', ''chan''),
      (Some ''msg'', ''PING hello'')]\<rparr>"
  have h1: "2 < length ?rules" by (simp add: HANDLERS_def handler_def handle_message_def)
  have h2: "re_match (fst (?rules ! 2)) ?l = Some ?m"
    by (simp add: HANDLERS_def handler_def handle_message_def re_match_def span_text_def)
  have h3: "\<forall>k < 2. re_match (fst (?rules ! k)) ?l = None"
    by (simp add: HANDLERS_def handler_def handle_message_def re_match_def less_Suc_eq
        eval_nat_numeral)
  have later: "re_match (fst (?rules ! 3)) ?l = Some ?m"
    by (simp add: HANDLERS_def handler_def handle_message_def re_match_def span_text_def)
  have sent: "map_sum id sent (respond test_config True test_env msg_ping ?m (fresh []))
     = Inr [''PRIVMSG #chan :PONG hello'' @ CRLF]"
    by (simp add: eval_defs)
  have "snd (?rules ! 2) = msg_ping"
    by (simp add: HANDLERS_def handler_def handle_message_def)
  with first_match_wins [OF h1 h2 h3, of test_config True test_env "fresh []", THEN conjunct1]
    later sent show ?thesis by simp
qed


section \<open>A handler that raises\<close>

text \<open>
  C2. Let a line be dispatched to a rule whose handler factory raises, or whose response
  raises when it is resolved. Then the pass of the loop ends normally: the traceback of
  the exception is written to standard error, the line
  \<open>PRIVMSG #<channel> :*** unhandled <name of the exception's class> -- see logs\r\n\<close> is sent to
  the configured channel, and the loop goes on with the next pass, which reads the rest
  of the input.
\<close>

theorem handler_error_contained:
  assumes line: "readline (inbox w) = (msg, rest)"
    and i: "i < length rules" "re_match (fst (rules ! i)) msg = Some m"
      "\<forall>k < i. re_match (fst (rules ! k)) msg = None"
    and err: "snd (rules ! i) m = Inl x
      \<or> (\<exists>r. snd (rules ! i) m = Inr r \<and> call r config e = Inl x)"
  shows "\<exists>w'. iteration rules config quiet e w = Inr w'
     \<and> sent w' = sent w @ [''PRIVMSG #'' @ channel config @ '' :*** unhandled '' @ exn_name x
                            @ '' -- see logs'' @ CRLF]
     \<and> stderr w' = stderr w @ (if quiet then [] else [Text (''> '' @ msg)]) @ [Traceback x]
          @ (if quiet then [] else [Text (''< '' @ ''PRIVMSG #'' @ channel config
               @ '' :*** unhandled '' @ exn_name x @ '' -- see logs'' @ CRLF)])
     \<and> inbox w' = rest
     \<and> while_true rules config quiet (e # es) w = while_true rules config quiet es w'"
proof -
  obtain w0 where w0: "sent w0 = sent w"
      "stderr w0 = stderr w @ (if quiet then [] else [Text (''> '' @ msg)])" "inbox w0 = rest"
      "iteration rules config quiet e w = for_handlers config quiet e rules msg w0"
    using iteration_cases [OF line] by blast
  have split: "rules = take i rules @ (fst (rules ! i), snd (rules ! i)) # drop (Suc i) rules"
    using i(1) by (simp add: id_take_nth_drop)
  have before: "\<forall>r \<in> set (take i rules). re_match (fst r) msg = None"
  proof
    fix r assume "r \<in> set (take i rules)"
    then obtain k where k: "k < i" "r = rules ! k"
      using i(1) by (auto simp: in_set_conv_nth)
    with i(3) show "re_match (fst r) msg = None" by simp
  qed
  have "for_handlers config quiet e
        (take i rules @ (fst (rules ! i), snd (rules ! i)) # drop (Suc i) rules) msg w0
      = respond config quiet e (snd (rules ! i)) m w0"
    using before i(2) by (rule for_handlers_first)
  with split have disp: "for_handlers config quiet e rules msg w0
      = respond config quiet e (snd (rules ! i)) m w0"
    by simp
  obtain w' where w': "respond config quiet e (snd (rules ! i)) m w0 = Inr w'"
      "sent w' = sent w0 @ [''PRIVMSG #'' @ channel config @ '' :*** unhandled '' @ exn_name x
                            @ '' -- see logs'' @ CRLF]"
      "stderr w' = stderr w0 @ [Traceback x]
          @ (if quiet then [] else [Text (''< '' @ ''PRIVMSG #'' @ channel config
               @ '' :*** unhandled '' @ exn_name x @ '' -- see logs'' @ CRLF)])"
      "inbox w' = inbox w0"
    using respond_error [where func = "snd (rules ! i)" and m = m and quiet = quiet and w = w0,
        OF err] by blast
  have it: "iteration rules config quiet e w = Inr w'"
    using w0(4) disp w'(1) by simp
  then have "while_true rules config quiet (e # es) w = while_true rules config quiet es w'"
    by simp
  with it w0 w' show ?thesis by simp
qed

theorem handler_error_contained_witness:
  "map_sum id sent (iteration HANDLERS test_config True
        (test_env\<lparr>status := Inl (Exception ''ClientError'')\<rparr>)
        (fresh ('':alice!alice@x PRIVMSG #chan :!uptime'' @ CRLF)))
     = Inr [''PRIVMSG #chan :*** unhandled ClientError -- see logs'' @ CRLF]
   \<and> map_sum id sent (while_true HANDLERS test_config True
        [test_env\<lparr>status := Inl (Exception ''ClientError'')\<rparr>, test_env]
        (fresh ('':alice!alice@x PRIVMSG #chan :!uptime'' @ CRLF @ ''PING :abc123'' @ CRLF)))
     = Inr [''PRIVMSG #chan :*** unhandled ClientError -- see logs'' @ CRLF, ''PONG :abc123'' @ CRLF]"
proof -
  let ?e = "test_env\<lparr>status := Inl (Exception ''ClientError'')\<rparr>"
  let ?l = "'':alice!alice@x PRIVMSG #chan :!uptime'' @ CRLF"
  let ?m = "\<lparr>whole = ?l, grps = [(Some ''user'', ''alice''), (Some ''channel'', ''chan''),
      (Some ''msg'', ''!uptime'')]\<rparr>"
  have h1: "readline (inbox (fresh ?l)) = (?l, [])" by (simp add: fresh_def)
  have h1': "readline (inbox (fresh (?l @ ''PING :abc123'' @ CRLF))) = (?l, ''PING :abc123'' @ CRLF)"
    by (simp add: fresh_def)
  have h2: "1 < length HANDLERS" by (simp add: HANDLERS_def handler_def handle_message_def)
  have h3: "re_match (fst (HANDLERS ! 1)) ?l = Some ?m"
    by (simp add: HANDLERS_def handler_def handle_message_def re_match_def span_text_def)
  have h4: "\<forall>k < 1. re_match (fst (HANDLERS ! k)) ?l = None"
    by (simp add: HANDLERS_def handler_def handle_message_def re_match_def)
  have h5: "snd (HANDLERS ! 1) ?m = Inl (Exception ''ClientError'')
      \<or> (\<exists>r. snd (HANDLERS ! 1) ?m = Inr r \<and> call r test_config ?e = Inl (Exception ''ClientError''))"
    by (simp add: HANDLERS_def handler_def handle_message_def cmd_uptime_def uptime_def)
  have a: "map_sum id sent (iteration HANDLERS test_config True ?e (fresh ?l))
     = Inr [''PRIVMSG #chan :*** unhandled ClientError -- see logs'' @ CRLF]"
    using handler_error_contained [OF h1 h2 h3 h4 h5, of True "[]"]
    by (auto simp: fresh_def test_config_def)
  obtain w' where w': "sent w' = [''PRIVMSG #chan :*** unhandled ClientError -- see logs'' @ CRLF]"
      "stderr w' = [Traceback (Exception ''ClientError'')]"
      "inbox w' = ''PING :abc123'' @ CRLF"
      "while_true HANDLERS test_config True [?e, test_env] (fresh (?l @ ''PING :abc123'' @ CRLF))
        = while_true HANDLERS test_config True [test_env] w'"
    using handler_error_contained [OF h1' h2 h3 h4 h5, of True "[test_env]"]
    by (auto simp: fresh_def test_config_def)
  have "readline (inbox w') = (''PING '' @ '':abc123'' @ CRLF, [])"
    using w'(3) by simp
  from pong_pattern_match [of "'':abc123''"] this w'(1)
  have "map_sum id sent (while_true HANDLERS test_config True [test_env] w')
      = Inr [''PRIVMSG #chan :*** unhandled ClientError -- see logs'' @ CRLF, ''PONG :abc123'' @ CRLF]"
    by (simp add: iteration_def recv_def HANDLERS_def handler_def re_match_def MSG_RE_def
        SEND_MSG_RE_def respond_def pong_def group_def groups_def deliver_def send_def span_text_def)
  with w'(4) a show ?thesis by simp
qed


section \<open>Elapsed time of a stream\<close>

text \<open>
  C3. The claim is that the reply reflects the whole interval since the start of the
  stream. The handler does subtract two datetimes, but then reads the field \<open>seconds\<close> of
  the difference, which leaves the whole days out: a stream that started \<open>d\<close> days and \<open>s\<close>
  seconds ago (\<open>s\<close> below one day) gets the reply of one that started \<open>s\<close> seconds ago. After
  25 hours the reply is \<open>streaming for: 1 hours\<close>.
\<close>

theorem uptime_drops_days:
  assumes "status e = Inr (Inr start # ds)"
    and "utcnow e = start + (int d * 86400 + int s) * 1000000"
    and "s < 86400"
  shows "call UptimeResponse config e
         = Inr (Some (''PRIVMSG #'' @ channel config @ '' :streaming for: ''
                      @ join '', '' (hms s) @ CRLF))"
proof -
  have "timedelta_seconds (utcnow e) start = s"
    unfolding assms(2) using assms(3) by (rule timedelta_seconds_days)
  with uptime_streaming [OF assms(1), of config] show ?thesis by simp
qed

theorem uptime_drops_days_witness:
  "status (test_env\<lparr>utcnow := 90000 * 1000000, status := Inr [Inr 0]\<rparr>) = Inr [Inr 0]
   \<and> utcnow (test_env\<lparr>utcnow := 90000 * 1000000, status := Inr [Inr 0]\<rparr>)
       = 0 + (int 1 * 86400 + int 3600) * 1000000
   \<and> call UptimeResponse test_config (test_env\<lparr>utcnow := 90000 * 1000000, status := Inr [Inr 0]\<rparr>)
       = Inr (Some (''PRIVMSG #chan :streaming for: 1 hours'' @ CRLF))"
proof -
  have a: "status (test_env\<lparr>utcnow := 90000 * 1000000, status := Inr [Inr 0]\<rparr>) = Inr (Inr 0 # [])"
    by simp
  have b: "utcnow (test_env\<lparr>utcnow := 90000 * 1000000, status := Inr [Inr 0]\<rparr>)
       = 0 + (int 1 * 86400 + int 3600) * 1000000"
    by simp
  have c: "(3600::nat) < 86400" by simp
  show ?thesis
    using a b uptime_drops_days [OF a b c, of test_config]
    by (simp add: test_config_def hms_def shown_def digit_chr_def)
qed


section \<open>The uptime reply\<close>

text \<open>
  C4. When the status service returns no stream, the uptime rule replies
  \<open>PRIVMSG #<chan> :not currently streaming!\r\n\<close> to the configured channel. When it returns a
  record started \<open>d\<close> whole seconds and a fraction of a second before now, with \<open>d\<close> below
  one day, the reply is \<open>streaming for: \<close> and \<open>d\<close> decomposed into hours, minutes, seconds,
  the largest first, joined by a comma and a space, zero values left out. A record started
  exactly 3661 seconds before now gives \<open>1 hours, 1 minutes, 1 seconds\<close>, one started exactly
  60 seconds before gives \<open>1 minutes\<close> alone, one started 45296 seconds before gives
  \<open>12 hours, 34 minutes, 56 seconds\<close>. From one day on the claim fails, by the defect of the
  previous section: the handler decomposes the field \<open>seconds\<close> of the difference, not the
  elapsed seconds, so 90000 seconds after the start the reply is \<open>streaming for: 1 hours\<close>,
  where the elapsed seconds decompose into \<open>25 hours\<close>. The last three parts run the loop
  on the chat line \<open>!uptime\<close>.
\<close>

theorem uptime_reply:
  "(status e = Inr [] \<longrightarrow>
      (\<exists>w'. respond config quiet e cmd_uptime m w = Inr w'
         \<and> sent w' = sent w @ [''PRIVMSG #'' @ channel config @ '' :not currently streaming!'' @ CRLF]))
   \<and> (status e = Inr (Inr start # ds) \<and> utcnow e = start + int d * 1000000 + us
        \<and> 0 \<le> us \<and> us < 1000000 \<and> d < 86400 \<longrightarrow>
      (\<exists>w'. respond config quiet e cmd_uptime m w = Inr w'
         \<and> sent w' = sent w @ [''PRIVMSG #'' @ channel config @ '' :streaming for: ''
                                 @ join '', '' (hms d) @ CRLF]))
   \<and> (status e = Inr (Inr start # ds) \<and> utcnow e = start + 3661 * 1000000 \<longrightarrow>
      (\<exists>w'. respond config quiet e cmd_uptime m w = Inr w'
         \<and> sent w' = sent w @ [''PRIVMSG #'' @ channel config
                                 @ '' :streaming for: 1 hours, 1 minutes, 1 seconds'' @ CRLF]))
   \<and> (status e = Inr (Inr start # ds) \<and> utcnow e = start + 60 * 1000000 \<longrightarrow>
      (\<exists>w'. respond config quiet e cmd_uptime m w = Inr w'
         \<and> sent w' = sent w @ [''PRIVMSG #'' @ channel config
                                 @ '' :streaming for: 1 minutes'' @ CRLF]))
   \<and> (status e = Inr (Inr start # ds) \<and> utcnow e = start + 45296 * 1000000 \<longrightarrow>
      (\<exists>w'. respond config quiet e cmd_uptime m w = Inr w'
         \<and> sent w' = sent w @ [''PRIVMSG #'' @ channel config
                                 @ '' :streaming for: 12 hours, 34 minutes, 56 seconds'' @ CRLF]))
   \<and> (status e = Inr (Inr start # ds) \<and> utcnow e = start + 90000 * 1000000 \<longrightarrow>
      (\<exists>w'. respond config quiet e cmd_uptime m w = Inr w'
         \<and> sent w' = sent w @ [''PRIVMSG #'' @ channel config
                                 @ '' :streaming for: 1 hours'' @ CRLF]))
   \<and> join '', '' (hms 90000) = ''25 hours''
   \<and> map_sum id sent (iteration HANDLERS test_config True (test_env\<lparr>status := Inr []\<rparr>)
          (fresh ('':alice!alice@x PRIVMSG #chan :!uptime'' @ CRLF)))
        = Inr [''PRIVMSG #chan :not currently streaming!'' @ CRLF]
   \<and> map_sum id sent (iteration HANDLERS test_config True test_env
          (fresh ('':alice!alice@x PRIVMSG #chan :!uptime'' @ CRLF)))
        = Inr [''PRIVMSG #chan :streaming for: 1 hours, 1 minutes, 1 seconds'' @ CRLF]
   \<and> map_sum id sent (iteration HANDLERS test_config True
          (test_env\<lparr>utcnow := 90000 * 1000000, status := Inr [Inr 0]\<rparr>)
          (fresh ('':alice!alice@x PRIVMSG #chan :!uptime'' @ CRLF)))
        = Inr [''PRIVMSG #chan :streaming for: 1 hours'' @ CRLF]"
proof -
  have f: "cmd_uptime m = Inr UptimeResponse" by (simp add: cmd_uptime_def)
  have off: "\<exists>w'. respond config quiet e cmd_uptime m w = Inr w'
         \<and> sent w' = sent w @ [''PRIVMSG #'' @ channel config @ '' :not currently streaming!'' @ CRLF]"
    if "status e = Inr []"
    using respond_sent [where func = cmd_uptime and m = m, OF f uptime_offline [OF that]] .
  have on: "\<exists>w'. respond config quiet e cmd_uptime m w = Inr w'
         \<and> sent w' = sent w @ [''PRIVMSG #'' @ channel config @ '' :streaming for: ''
                                 @ join '', '' (hms (timedelta_seconds (utcnow e) start)) @ CRLF]"
    if "status e = Inr (Inr start # ds)"
    using respond_sent [where func = cmd_uptime and m = m, OF f uptime_streaming [OF that]] .
  have el: "timedelta_seconds (utcnow e) start = d"
    if "utcnow e = start + int d * 1000000 + us" "0 \<le> us" "us < 1000000" "d < 86400"
    unfolding that(1) using that(2-4) by (rule timedelta_seconds_elapsed)
  have c2: "\<exists>w'. respond config quiet e cmd_uptime m w = Inr w'
         \<and> sent w' = sent w @ [''PRIVMSG #'' @ channel config @ '' :streaming for: ''
                                 @ join '', '' (hms d) @ CRLF]"
    if "status e = Inr (Inr start # ds) \<and> utcnow e = start + int d * 1000000 + us
        \<and> 0 \<le> us \<and> us < 1000000 \<and> d < 86400"
    using on el that by simp
  have h1: "utcnow e = start + 3661 * 1000000 \<Longrightarrow>
      ''PRIVMSG #'' @ channel config @ '' :streaming for: ''
        @ join '', '' (hms (timedelta_seconds (utcnow e) start)) @ CRLF
      = ''PRIVMSG #'' @ channel config @ '' :streaming for: 1 hours, 1 minutes, 1 seconds'' @ CRLF"
    by (simp add: timedelta_seconds_def hms_def shown_def digit_chr_def)
  have h2: "utcnow e = start + 60 * 1000000 \<Longrightarrow>
      ''PRIVMSG #'' @ channel config @ '' :streaming for: ''
        @ join '', '' (hms (timedelta_seconds (utcnow e) start)) @ CRLF
      = ''PRIVMSG #'' @ channel config @ '' :streaming for: 1 minutes'' @ CRLF"
    by (simp add: timedelta_seconds_def hms_def shown_def digit_chr_def)
  have h3: "utcnow e = start + 45296 * 1000000 \<Longrightarrow>
      ''PRIVMSG #'' @ channel config @ '' :streaming for: ''
        @ join '', '' (hms (timedelta_seconds (utcnow e) start)) @ CRLF
      = ''PRIVMSG #'' @ channel config @ '' :streaming for: 12 hours, 34 minutes, 56 seconds'' @ CRLF"
    by (simp add: timedelta_seconds_def hms_def shown_def digit_chr_def)
  have h4: "utcnow e = start + 90000 * 1000000 \<Longrightarrow>
      ''PRIVMSG #'' @ channel config @ '' :streaming for: ''
        @ join '', '' (hms (timedelta_seconds (utcnow e) start)) @ CRLF
      = ''PRIVMSG #'' @ channel config @ '' :streaming for: 1 hours'' @ CRLF"
    by (simp add: timedelta_seconds_def hms_def shown_def digit_chr_def)
  have h5: "join '', '' (hms 90000) = ''25 hours''"
    by (simp add: hms_def shown_def digit_chr_def)
  have l1: "map_sum id sent (iteration HANDLERS test_config True (test_env\<lparr>status := Inr []\<rparr>)
          (fresh ('':alice!alice@x PRIVMSG #chan :!uptime'' @ CRLF)))
        = Inr [''PRIVMSG #chan :not currently streaming!'' @ CRLF]"
    by (simp add: run_defs)
  have l2: "map_sum id sent (iteration HANDLERS test_config True test_env
          (fresh ('':alice!alice@x PRIVMSG #chan :!uptime'' @ CRLF)))
        = Inr [''PRIVMSG #chan :streaming for: 1 hours, 1 minutes, 1 seconds'' @ CRLF]"
    by (simp add: run_defs)
  have l3: "map_sum id sent (iteration HANDLERS test_config True
          (test_env\<lparr>utcnow := 90000 * 1000000, status := Inr [Inr 0]\<rparr>)
          (fresh ('':alice!alice@x PRIVMSG #chan :!uptime'' @ CRLF)))
        = Inr [''PRIVMSG #chan :streaming for: 1 hours'' @ CRLF]"
    by (simp add: run_defs)
  show ?thesis
    using off c2 on h1 h2 h3 h4 h5 l1 l2 l3 by auto
qed

theorem uptime_reply_witness:
  "status (test_env\<lparr>status := Inr []\<rparr>) = Inr []
   \<and> map_sum id sent (respond test_config True (test_env\<lparr>status := Inr []\<rparr>) cmd_uptime
         \<lparr>whole = [], grps = []\<rparr> (fresh []))
       = Inr [''PRIVMSG #chan :not currently streaming!'' @ CRLF]
   \<and> status test_env = Inr [Inr 86400000000]
   \<and> utcnow test_env = 86400000000 + int 3661 * 1000000 + 0
   \<and> map_sum id sent (respond test_config True test_env cmd_uptime
         \<lparr>whole = [], grps = []\<rparr> (fresh []))
       = Inr [''PRIVMSG #chan :streaming for: 1 hours, 1 minutes, 1 seconds'' @ CRLF]
   \<and> map_sum id sent (respond test_config True
         (test_env\<lparr>utcnow := 90000 * 1000000, status := Inr [Inr 0]\<rparr>) cmd_uptime
         \<lparr>whole = [], grps = []\<rparr> (fresh []))
       = Inr [''PRIVMSG #chan :streaming for: 1 hours'' @ CRLF]"
proof -
  have a: "status (test_env\<lparr>status := Inr []\<rparr>) = Inr []" by simp
  have b: "status test_env = Inr (Inr 86400000000 # [])
      \<and> utcnow test_env = 86400000000 + int 3661 * 1000000 + 0"
    by (simp add: test_env_def)
  have c: "status (test_env\<lparr>utcnow := 90000 * 1000000, status := Inr [Inr 0]\<rparr>) = Inr (Inr 0 # [])
      \<and> utcnow (test_env\<lparr>utcnow := 90000 * 1000000, status := Inr [Inr 0]\<rparr>) = 0 + 90000 * 1000000"
    by simp
  have "\<exists>w'. respond test_config True (test_env\<lparr>status := Inr []\<rparr>) cmd_uptime
         \<lparr>whole = [], grps = []\<rparr> (fresh []) = Inr w'
       \<and> sent w' = [''PRIVMSG #chan :not currently streaming!'' @ CRLF]"
    using a uptime_reply [where e = "test_env\<lparr>status := Inr []\<rparr>" and config = test_config
        and quiet = True and m = "\<lparr>whole = [], grps = []\<rparr>" and w = "fresh []", THEN conjunct1]
    by (simp add: fresh_def test_config_def)
  moreover have "\<exists>w'. respond test_config True test_env cmd_uptime
         \<lparr>whole = [], grps = []\<rparr> (fresh []) = Inr w'
       \<and> sent w' = [''PRIVMSG #chan :streaming for: 1 hours, 1 minutes, 1 seconds'' @ CRLF]"
    using b uptime_reply [where e = test_env and config = test_config and start = 86400000000
        and ds = "[]" and d = 3661 and us = 0 and quiet = True
        and m = "\<lparr>whole = [], grps = []\<rparr>" and w = "fresh []",
        THEN conjunct2, THEN conjunct1]
    by (simp add: fresh_def test_config_def hms_def shown_def digit_chr_def)
  moreover have "\<exists>w'. respond test_config True
         (test_env\<lparr>utcnow := 90000 * 1000000, status := Inr [Inr 0]\<rparr>) cmd_uptime
         \<lparr>whole = [], grps = []\<rparr> (fresh []) = Inr w'
       \<and> sent w' = [''PRIVMSG #chan :streaming for: 1 hours'' @ CRLF]"
    using c uptime_reply [where e = "test_env\<lparr>utcnow := 90000 * 1000000, status := Inr [Inr 0]\<rparr>"
        and config = test_config and start = 0
        and ds = "[]" and quiet = True and m = "\<lparr>whole = [], grps = []\<rparr>" and w = "fresh []",
        THEN conjunct2, THEN conjunct2, THEN conjunct2, THEN conjunct2, THEN conjunct2, THEN conjunct1]
    by (simp add: fresh_def test_config_def)
  ultimately show ?thesis using a b by auto
qed


section \<open>The chat echo and braces\<close>

text \<open>
  C5. The chat line \<open>:alice!alice@x PRIVMSG #chan :PING hello\r\n\<close> makes the loop send
  \<open>PRIVMSG #chan :PONG hello\r\n\<close>, and with the body \<open>PING {evil}\<close> it sends
  \<open>PRIVMSG #chan :PONG {evil}\r\n\<close>. For every remainder, with braces or without, formatting
  the escaped message never raises and gives back the remainder as it was; so for every
  match with the groups user, channel and msg, the response of \<open>msg_ping\<close> resolves to the
  chat line for the captured channel whose message is \<open>PONG \<close> and what the body has after
  its first space, braces unchanged.
\<close>

theorem msg_ping_escapes:
  "map_sum id sent (iteration HANDLERS config quiet e
       (fresh ('':alice!alice@x PRIVMSG #chan :PING hello'' @ CRLF)))
     = Inr [''PRIVMSG #chan :PONG hello'' @ CRLF]
   \<and> map_sum id sent (iteration HANDLERS config quiet e
       (fresh ('':alice!alice@x PRIVMSG #chan :PING {evil}'' @ CRLF)))
     = Inr [''PRIVMSG #chan :PONG {evil}'' @ CRLF]
   \<and> py_format kw (''PONG '' @ esc rest) = Inr (''PONG '' @ rest)
   \<and> (grps m = [(Some ''user'', u), (Some ''channel'', c), (Some ''msg'', body)] \<longrightarrow>
        msg_ping m = Inr (MessageResponse m
            (''PONG '' @ esc (snd (snd (str_partition (CHR '' '') body)))))
        \<and> call (MessageResponse m (''PONG '' @ esc (snd (snd (str_partition (CHR '' '') body)))))
              config e
            = Inr (Some (''PRIVMSG #'' @ c @ '' :PONG ''
                         @ snd (snd (str_partition (CHR '' '') body)) @ CRLF)))"
proof -
  have a: "map_sum id sent (iteration HANDLERS config quiet e
       (fresh ('':alice!alice@x PRIVMSG #chan :PING hello'' @ CRLF)))
     = Inr [''PRIVMSG #chan :PONG hello'' @ CRLF]"
    by (simp add: run_defs)
  have b: "map_sum id sent (iteration HANDLERS config quiet e
       (fresh ('':alice!alice@x PRIVMSG #chan :PING {evil}'' @ CRLF)))
     = Inr [''PRIVMSG #chan :PONG {evil}'' @ CRLF]"
    by (simp add: run_defs)
  from a b show ?thesis
    using format_pong_esc [of kw rest] msg_ping_call [of m u c body]
    by blast
qed

theorem msg_ping_escapes_witness:
  "grps \<lparr>whole = '':alice!alice@x PRIVMSG #chan :PING {evil}'' @ CRLF,
          grps = [(Some ''user'', ''alice''), (Some ''channel'', ''chan''),
                  (Some ''msg'', ''PING {evil}'')]\<rparr>
     = [(Some ''user'', ''alice''), (Some ''channel'', ''chan''), (Some ''msg'', ''PING {evil}'')]
   \<and> call (MessageResponse
         \<lparr>whole = '':alice!alice@x PRIVMSG #chan :PING {evil}'' @ CRLF,
          grps = [(Some ''user'', ''alice''), (Some ''channel'', ''chan''),
                  (Some ''msg'', ''PING {evil}'')]\<rparr>
         (''PONG '' @ esc ''{evil}'')) test_config test_env
     = Inr (Some (''PRIVMSG #chan :PONG {evil}'' @ CRLF))"
  using msg_ping_escapes [where m = "\<lparr>whole = '':alice!alice@x PRIVMSG #chan :PING {evil}'' @ CRLF,
          grps = [(Some ''user'', ''alice''), (Some ''channel'', ''chan''),
                  (Some ''msg'', ''PING {evil}'')]\<rparr>"
      and u = "''alice''" and c = "''chan''" and body = "''PING {evil}''"
      and config = test_config and e = test_env, THEN conjunct2, THEN conjunct2, THEN conjunct2]
  by simp


section \<open>The keep-alive rule\<close>

text \<open>
  C6. When the line that \<open>readline\<close> delivers is \<open>PING \<close>, a payload and \<open>\r\n\<close>, one pass of
  the loop sends exactly \<open>PONG \<close>, the same payload and \<open>\r\n\<close>, whatever the payload, the
  configuration, the verbosity and the outside conditions are; nothing is printed to
  standard output. The factory \<open>pong\<close> returns a \<open>CmdResponse\<close> that holds the finished line,
  and resolving a \<open>CmdResponse\<close> reads neither the configuration nor the outside world.
\<close>

theorem pong_echo:
  assumes "readline (inbox w) = (''PING '' @ payload @ CRLF, rest)"
  shows "iteration HANDLERS config quiet e w =
           Inr (send (''PONG '' @ payload @ CRLF) quiet (snd (recv quiet w)))
         \<and> sent (send (''PONG '' @ payload @ CRLF) quiet (snd (recv quiet w)))
             = sent w @ [''PONG '' @ payload @ CRLF]
         \<and> (\<exists>m. re_match (fst (hd HANDLERS)) (''PING '' @ payload @ CRLF) = Some m
                \<and> snd (hd HANDLERS) m = Inr (CmdResponse (''PONG '' @ payload @ CRLF)))
         \<and> call (CmdResponse (''PONG '' @ payload @ CRLF)) config e
             = Inr (Some (''PONG '' @ payload @ CRLF))"
proof -
  have "LF \<notin> set (''PING '' @ payload @ [CR])"
    using readline_no_LF [of "inbox w" "''PING '' @ payload @ [CR]" LF rest] assms by simp
  then have nl: "LF \<notin> set payload" by simp
  have msg: "re_match MSG_RE (''PING '' @ payload @ CRLF) = None"
    by (simp add: re_match_def MSG_RE_def)
  have snd: "re_match SEND_MSG_RE (''PONG '' @ payload @ CRLF) = None"
    by (simp add: re_match_def SEND_MSG_RE_def)
  have one: "iteration HANDLERS config quiet e w =
      Inr (send (''PONG '' @ payload @ CRLF) quiet (snd (recv quiet w)))"
    using assms msg snd pong_pattern_match [OF nl]
    by (simp add: iteration_def recv_def HANDLERS_def handler_def
        respond_def pong_def group_def groups_def deliver_def)
  have two: "sent (send (''PONG '' @ payload @ CRLF) quiet (snd (recv quiet w)))
      = sent w @ [''PONG '' @ payload @ CRLF]"
    using assms by (simp add: send_def recv_def)
  have three: "\<exists>m. re_match (fst (hd HANDLERS)) (''PING '' @ payload @ CRLF) = Some m
      \<and> snd (hd HANDLERS) m = Inr (CmdResponse (''PONG '' @ payload @ CRLF))"
    using pong_pattern_match [OF nl]
    by (simp add: HANDLERS_def handler_def pong_def group_def groups_def)
  from one two three show ?thesis by simp
qed

theorem pong_echo_witness:
  "readline (inbox (fresh (''PING :abc123'' @ CRLF))) = (''PING '' @ '':abc123'' @ CRLF, [])
   \<and> iteration HANDLERS test_config True test_env (fresh (''PING :abc123'' @ CRLF))
       = Inr \<lparr>inbox = [], sent = [''PONG :abc123'' @ CRLF], stderr = [], stdout = []\<rparr>"
proof -
  have h: "readline (inbox (fresh (''PING :abc123'' @ CRLF))) = (''PING '' @ '':abc123'' @ CRLF, [])"
    by (simp add: fresh_def)
  show ?thesis
    using h pong_echo [OF h, of test_config True test_env]
    by (simp add: fresh_def send_def recv_def)
qed


section \<open>Registered patterns and whole lines\<close>

text \<open>
  C7. Every pattern that \<open>handler\<close> registers, and so every pattern of the table, is
  anchored at the start of the line and requires the terminator at its end: whenever it
  matches a line that the loop reads, the match starts at position zero, the text it
  matches is the whole line, and the line ends with \<open>\r\n\<close>. So no proper part of a line
  and no line without the terminator ever matches.
\<close>

theorem registered_pattern_line:
  assumes "(pat, func) \<in> set (handler pres f) \<or> (pat, func) \<in> set HANDLERS"
    and "readline t = (s, r)"
    and "re_match pat s = Some m"
  shows "whole m = s \<and> suffix CRLF s"
proof -
  from assms(1) obtain pre where "pat = pre @ [Lit CRLF, Eol]"
    by (auto simp: handler_def HANDLERS_def handle_message_def)
  with assms(3) have t: "prefix (whole m) s \<and> suffix CRLF (whole m)
      \<and> (s = whole m \<or> s = whole m @ [LF])"
    using terminated_match by blast
  have "whole m = s"
  proof (rule ccontr)
    assume "whole m \<noteq> s"
    with t have s: "s = whole m @ [LF]" by blast
    with assms(2) have "LF \<notin> set (whole m)" using readline_no_LF by blast
    moreover from t have "LF \<in> set (whole m)" by (auto simp: suffix_def)
    ultimately show False by simp
  qed
  with t show ?thesis by simp
qed

theorem registered_pattern_line_witness:
  "(fst (HANDLERS ! 2), snd (HANDLERS ! 2)) \<in> set HANDLERS
   \<and> readline ('':alice!alice@x PRIVMSG #chan :PING hello'' @ CRLF @ ''PING :abc123'' @ CRLF)
       = ('':alice!alice@x PRIVMSG #chan :PING hello'' @ CRLF, ''PING :abc123'' @ CRLF)
   \<and> re_match (fst (HANDLERS ! 2)) ('':alice!alice@x PRIVMSG #chan :PING hello'' @ CRLF)
       = Some \<lparr>whole = '':alice!alice@x PRIVMSG #chan :PING hello'' @ CRLF,
               grps = [(Some ''user'', ''alice''), (Some ''channel'', ''chan''),
                       (Some ''msg'', ''PING hello'')]\<rparr>
   \<and> suffix CRLF ('':alice!alice@x PRIVMSG #chan :PING hello'' @ CRLF)"
proof -
  let ?l = "'':alice!alice@x PRIVMSG #chan :PING hello'' @ CRLF"
  let ?m = "\<lparr>whole = ?l, grps = [(Some ''user'', ''alice''), (Some ''channel'', ''chan''),
      (Some ''msg'', ''PING hello'')]\<rparr>"
  have h1: "(fst (HANDLERS ! 2), snd (HANDLERS ! 2)) \<in> set (handler [] pong)
      \<or> (fst (HANDLERS ! 2), snd (HANDLERS ! 2)) \<in> set HANDLERS"
    by (simp add: HANDLERS_def handler_def handle_message_def)
  have h2: "readline (?l @ ''PING :abc123'' @ CRLF) = (?l, ''PING :abc123'' @ CRLF)"
    by simp
  have h3: "re_match (fst (HANDLERS ! 2)) ?l = Some ?m"
    by (simp add: HANDLERS_def handler_def handle_message_def re_match_def span_text_def)
  from registered_pattern_line [OF h1 h2 h3] h1 h2 h3 show ?thesis
    by (simp add: handler_def)
qed


section \<open>What the loop sends\<close>

text \<open>
  C8 (as amended). Whatever line comes in, a pass of the loop sends nothing or one
  response, and the response ends with \<open>\r\n\<close>. It is the keep-alive reply \<open>PONG <payload>\r\n\<close>,
  which the recogniser \<open>SEND_MSG_RE\<close> does not match (it is sent without a log entry), or a
  chat line \<open>PRIVMSG #<channel> :<msg>\r\n\<close>, which the recogniser matches unless it goes to
  the configured channel and that channel is empty or contains a space.
\<close>

theorem sent_lines_recognised:
  assumes "iteration HANDLERS config quiet e w = Inr w'"
  shows "sent w' = sent w
     \<or> (\<exists>res. sent w' = sent w @ [res] \<and> suffix CRLF res
          \<and> ((\<exists>payload. res = ''PONG '' @ payload @ CRLF \<and> \<not> recognised res)
             \<or> (\<exists>ch msg. res = chat_line ch msg
                   \<and> (recognised res
                        \<or> (ch = channel config \<and> (ch = [] \<or> CHR '' '' \<in> set ch))))))"
proof -
  define good where "good res \<longleftrightarrow> suffix CRLF res
          \<and> ((\<exists>payload. res = ''PONG '' @ payload @ CRLF \<and> \<not> recognised res)
             \<or> (\<exists>ch msg. res = chat_line ch msg
                   \<and> (recognised res
                        \<or> (ch = channel config \<and> (ch = [] \<or> CHR '' '' \<in> set ch)))))" for res
  have good_pong: "good (''PONG '' @ payload @ CRLF)" for payload
    unfolding good_def using not_recognised_pong [of payload]
    by (auto simp: suffix_def)
  have suffix_chat: "suffix CRLF (chat_line ch msg)" for ch msg
    unfolding chat_line_def suffix_def by (intro exI [of _ "''PRIVMSG #'' @ ch @ '' :'' @ msg"]) simp
  have good_config: "good (chat_line (channel config) msg)" if "msg \<noteq> []" "hd msg \<noteq> CR" for msg
    unfolding good_def using suffix_chat recognised_chat_line [OF _ _ that] by blast
  have good_chat: "good (chat_line ch msg)"
    if "ch \<noteq> []" "CHR '' '' \<notin> set ch" "msg \<noteq> []" "hd msg \<noteq> CR" for ch msg
    unfolding good_def using suffix_chat recognised_chat_line [OF that] by blast
  have good_fallback: "good (chat_line (channel config)
      (''*** unhandled '' @ exn_name x @ '' -- see logs''))" for x
    by (rule good_config) simp_all
  have resp: "sent w' = sent w0 \<or> (\<exists>res. sent w' = sent w0 @ [res] \<and> good res)"
    if r: "respond config quiet e func m w0 = Inr w'"
      and ok: "\<And>r res. func m = Inr r \<Longrightarrow> call r config e = Inr (Some res) \<Longrightarrow> good res"
    for func m w0
    using respond_cases [OF r] good_fallback ok by blast
  obtain line rest where "readline (inbox w) = (line, rest)" by (cases "readline (inbox w)")
  from iteration_cases [OF this, of quiet HANDLERS config e] assms
  obtain w0 where w0: "sent w0 = sent w" "for_handlers config quiet e HANDLERS line w0 = Inr w'"
    by auto
  let ?p1 = "[Bol, Lit ''PING '', Open None, Star Dot, Close, Lit CRLF, Eol]"
  let ?p2 = "Bol # Lit '':'' # Open (Some ''user'') # Plus (Not (CHR ''!'')) # Close # Star Dot
         # chat_tail ''!uptime''"
  let ?p3 = "Bol # Lit '':'' # Open (Some ''user'') # Plus (Not (CHR ''!'')) # Close # Star Dot
         # chat_tail ''PING''"
  have "sent w' = sent w0 \<or> (\<exists>res. sent w' = sent w0 @ [res] \<and> good res)"
  proof (cases "re_match ?p1 line")
    case (Some m)
    with w0(2) have "respond config quiet e pong m w0 = Inr w'"
      by (simp add: HANDLERS_unfold)
    then show ?thesis
    proof (rule resp)
      fix r res assume a: "pong m = Inr r" "call r config e = Inr (Some res)"
      from pong_shape [OF a(1)] obtain payload where "r = CmdResponse (''PONG '' @ payload @ CRLF)"
        by blast
      with a(2) have "res = ''PONG '' @ payload @ CRLF" by simp
      then show "good res" using good_pong [of payload] by (simp only:)
    qed
  next
    case n1: None
    show ?thesis
    proof (cases "re_match ?p2 line")
      case (Some m)
      with n1 w0(2) have "respond config quiet e cmd_uptime m w0 = Inr w'"
        by (simp add: HANDLERS_unfold)
      then show ?thesis
      proof (rule resp)
        fix r res assume "cmd_uptime m = Inr r" "call r config e = Inr (Some res)"
        then have "uptime config e = Inr (Some res)" by (auto simp: cmd_uptime_def)
        from uptime_shape [OF this] show "good res" using good_config by blast
      qed
    next
      case n2: None
      show ?thesis
      proof (cases "re_match ?p3 line")
        case (Some m)
        with n1 n2 w0(2) have r: "respond config quiet e msg_ping m w0 = Inr w'"
          by (simp add: HANDLERS_unfold)
        from chat_groups [OF Some] obtain u c b where
            g: "grps m = [(Some ''user'', u), (Some ''channel'', c), (Some ''msg'', b)]"
            and c: "c \<noteq> []" "CHR '' '' \<notin> set c"
          by blast
        from msg_ping_shape [OF g, of config e] obtain rest' where
            mp: "msg_ping m = Inr (MessageResponse m (''PONG '' @ esc rest'))"
              "call (MessageResponse m (''PONG '' @ esc rest')) config e
                 = Inr (Some (chat_line c (''PONG '' @ rest')))"
          by blast
        from r show ?thesis
        proof (rule resp)
          fix r res assume "msg_ping m = Inr r" "call r config e = Inr (Some res)"
          with mp have "res = chat_line c (''PONG '' @ rest')" by simp
          then show "good res" using good_chat [OF c, of "''PONG '' @ rest'"] by simp
        qed
      next
        case None
        with n1 n2 w0(2) show ?thesis
          by (auto simp: HANDLERS_unfold print_def split: if_splits)
      qed
    qed
  qed
  then show ?thesis unfolding good_def w0(1) .
qed

theorem sent_lines_recognised_witness:
  "iteration HANDLERS test_config True test_env
       (fresh ('':alice!alice@x PRIVMSG #chan :PING hello'' @ CRLF))
     = Inr \<lparr>inbox = [], sent = [''PRIVMSG #chan :PONG hello'' @ CRLF], stderr = [],
            stdout = [''[09:05]<alice> PING hello'' @ [LF], ''[09:05]<bot> PONG hello'' @ [LF]]\<rparr>
   \<and> recognised (''PRIVMSG #chan :PONG hello'' @ CRLF)"
proof -
  let ?w' = "\<lparr>inbox = [], sent = [''PRIVMSG #chan :PONG hello'' @ CRLF], stderr = [],
            stdout = [''[09:05]<alice> PING hello'' @ [LF], ''[09:05]<bot> PONG hello'' @ [LF]]\<rparr>"
  have a: "iteration HANDLERS test_config True test_env
       (fresh ('':alice!alice@x PRIVMSG #chan :PING hello'' @ CRLF)) = Inr ?w'"
    by (simp add: eval_defs)
  from sent_lines_recognised [OF a]
  have "recognised (''PRIVMSG #chan :PONG hello'' @ CRLF)"
    by (auto simp: fresh_def test_config_def chat_line_def)
  with a show ?thesis by simp
qed

text \<open>
  The claim as it was stated fails for the keep-alive reply: it is sent, and it is not
  a line that \<open>SEND_MSG_RE\<close> recognises.
\<close>

theorem sent_lines_recognised_counterexample:
  "map_sum id sent (iteration HANDLERS test_config True test_env (fresh (''PING :abc123'' @ CRLF)))
     = Inr [''PONG :abc123'' @ CRLF]
   \<and> re_match SEND_MSG_RE (''PONG :abc123'' @ CRLF) = None"
  by (simp add: eval_defs)


section \<open>Session bootstrap\<close>

text \<open>
  C9. Before the loop starts, \<open>amain\<close> sends exactly the three lines \<open>PASS <token>\r\n\<close>,
  \<open>NICK <name>\r\n\<close> and \<open>JOIN #<channel>\r\n\<close>, in this order, and whatever the loop sends
  comes after them. Of the three only the second and the third are echoed to standard
  error, and only when the program is not quiet. For either setting of the flag, two
  runs that differ in nothing but the token write the same to standard error and to
  standard output.
\<close>

theorem bootstrap_hides_token:
  "sent (bootstrap config quiet w)
     = sent w @ [''PASS '' @ oauth_token config @ CRLF, ''NICK '' @ username config @ CRLF,
                 ''JOIN #'' @ channel config @ CRLF]
   \<and> stderr (bootstrap config quiet w)
     = stderr w @ (if quiet then []
                   else [Text (''< NICK '' @ username config @ CRLF),
                         Text (''< JOIN #'' @ channel config @ CRLF)])
   \<and> stdout (bootstrap config quiet w) = stdout w
   \<and> (\<forall>w'. amain config quiet es w = Inr w' \<longrightarrow>
         prefix (sent w @ [''PASS '' @ oauth_token config @ CRLF, ''NICK '' @ username config @ CRLF,
                           ''JOIN #'' @ channel config @ CRLF]) (sent w'))
   \<and> map_sum id diag (amain (config\<lparr>oauth_token := t1\<rparr>) quiet es w)
     = map_sum id diag (amain (config\<lparr>oauth_token := t2\<rparr>) quiet es w)"
proof -
  have s: "sent (bootstrap config quiet w)
     = sent w @ [''PASS '' @ oauth_token config @ CRLF, ''NICK '' @ username config @ CRLF,
                 ''JOIN #'' @ channel config @ CRLF]"
    by (simp add: bootstrap_def send_def)
  have e: "stderr (bootstrap config quiet w)
     = stderr w @ (if quiet then []
                   else [Text (''< NICK '' @ username config @ CRLF),
                         Text (''< JOIN #'' @ channel config @ CRLF)])"
    by (simp add: bootstrap_def send_def)
  have o: "stdout (bootstrap config quiet w) = stdout w"
    by (simp add: bootstrap_def send_def)
  have p: "prefix (sent w @ [''PASS '' @ oauth_token config @ CRLF, ''NICK '' @ username config @ CRLF,
                           ''JOIN #'' @ channel config @ CRLF]) (sent w')"
    if "amain config quiet es w = Inr w'" for w'
    using that while_true_sent_prefix [of HANDLERS config quiet es "bootstrap config quiet w" w'] s
    by (simp add: amain_def)
  have b: "obs (bootstrap (config\<lparr>oauth_token := t1\<rparr>) quiet w)
      = obs (bootstrap (config\<lparr>oauth_token := t2\<rparr>) quiet w)"
    by (simp add: obs_def bootstrap_def send_def)
  have "map_sum id obs (amain (config\<lparr>oauth_token := t1\<rparr>) quiet es w)
      = map_sum id obs (amain (config\<lparr>oauth_token := t2\<rparr>) quiet es w)"
    unfolding amain_def while_true_token using b by (rule while_true_obs)
  then have n: "map_sum id diag (amain (config\<lparr>oauth_token := t1\<rparr>) quiet es w)
     = map_sum id diag (amain (config\<lparr>oauth_token := t2\<rparr>) quiet es w)"
    by (cases "amain (config\<lparr>oauth_token := t1\<rparr>) quiet es w";
        cases "amain (config\<lparr>oauth_token := t2\<rparr>) quiet es w")
       (auto simp: obs_def diag_def)
  from s e o p n show ?thesis by blast
qed

theorem bootstrap_hides_token_witness:
  "map_sum id sent (amain test_config False [test_env] (fresh (''PING :abc123'' @ CRLF)))
     = Inr [''PASS secret'' @ CRLF, ''NICK bot'' @ CRLF, ''JOIN #chan'' @ CRLF, ''PONG :abc123'' @ CRLF]
   \<and> map_sum id diag (amain test_config False [test_env] (fresh (''PING :abc123'' @ CRLF)))
     = Inr ([Text (''< NICK bot'' @ CRLF), Text (''< JOIN #chan'' @ CRLF),
             Text (''> PING :abc123'' @ CRLF), Text (''< PONG :abc123'' @ CRLF)], [])
   \<and> map_sum id diag (amain (test_config\<lparr>oauth_token := ''other''\<rparr>) False [test_env]
         (fresh (''PING :abc123'' @ CRLF)))
     = map_sum id diag (amain test_config False [test_env] (fresh (''PING :abc123'' @ CRLF)))"
proof -
  have a: "amain test_config False [test_env] (fresh (''PING :abc123'' @ CRLF))
      = Inr \<lparr>inbox = [],
             sent = [''PASS secret'' @ CRLF, ''NICK bot'' @ CRLF, ''JOIN #chan'' @ CRLF,
                     ''PONG :abc123'' @ CRLF],
             stderr = [Text (''< NICK bot'' @ CRLF), Text (''< JOIN #chan'' @ CRLF),
                       Text (''> PING :abc123'' @ CRLF), Text (''< PONG :abc123'' @ CRLF)],
             stdout = []\<rparr>"
    by (simp add: amain_def bootstrap_def eval_defs)
  have "test_config\<lparr>oauth_token := ''secret''\<rparr> = test_config"
    by (simp add: test_config_def)
  with bootstrap_hides_token [of test_config False "fresh (''PING :abc123'' @ CRLF)" "[test_env]"
      "''other''" "''secret''"]
  have "map_sum id diag (amain (test_config\<lparr>oauth_token := ''other''\<rparr>) False [test_env]
         (fresh (''PING :abc123'' @ CRLF)))
     = map_sum id diag (amain test_config False [test_env] (fresh (''PING :abc123'' @ CRLF)))"
    by simp
  with a show ?thesis by (simp add: diag_def)
qed


section \<open>Which chat lines the echo rule answers\<close>

text \<open>
  A chat line \<open>:<nick>!<host> PRIVMSG #<chan> :<body>\r\n\<close> that \<open>readline\<close> delivers, with a
  nick, a host and a channel free of spaces, nick and channel not empty, no \<open>!\<close> in the nick,
  and a body that begins with \<open>PING\<close> (whatever follows, also nothing or a letter) and has
  no second \<open> PRIVMSG #\<close> in it, is answered on the same channel with \<open>PONG \<close> followed by
  what the body has after its first space; when the body has no space, that is nothing. The
  bodies \<open>PINGx hello\<close> and \<open>PING\<close> are two examples.
\<close>

lemma echo_plain_body:
  assumes line: "readline (inbox w)
      = ('':'' @ u @ ''!'' @ j @ '' PRIVMSG #'' @ c @ '' :'' @ ''PING'' @ r @ CRLF, rest)"
    and u: "u \<noteq> []" "CHR ''!'' \<notin> set u" "CHR '' '' \<notin> set u"
    and j: "CHR '' '' \<notin> set j"
    and c: "c \<noteq> []" "CHR '' '' \<notin> set c"
    and b: "\<not> sublist '' PRIVMSG #'' (''PING'' @ r)"
  shows "(\<exists>w'. iteration HANDLERS config quiet e w = Inr w'
            \<and> sent w' = sent w @ [''PRIVMSG #'' @ c @ '' :PONG ''
                   @ snd (snd (str_partition (CHR '' '') (''PING'' @ r))) @ CRLF])
         \<and> (CHR '' '' \<notin> set r \<longrightarrow> snd (snd (str_partition (CHR '' '') (''PING'' @ r))) = [])"
proof -
  define ln where "ln = '':'' @ u @ ''!'' @ j @ '' PRIVMSG #'' @ c @ '' :'' @ ''PING'' @ r @ CRLF"
  define m where "m = \<lparr>whole = ln,
      grps = [(Some ''user'', u), (Some ''channel'', c), (Some ''msg'', ''PING'' @ r)]\<rparr>"
  define rest' where "rest' = snd (snd (str_partition (CHR '' '') (''PING'' @ r)))"
  have "LF \<notin> set ('':'' @ u @ ''!'' @ j @ '' PRIVMSG #'' @ c @ '' :'' @ ''PING'' @ r @ [CR])"
    using readline_no_LF [of "inbox w" _ LF rest] line by simp
  then have nl: "LF \<notin> set j" "LF \<notin> set r" by simp_all
  have r1: "re_match [Bol, Lit ''PING '', Open None, Star Dot, Close, Lit CRLF, Eol] ln = None"
    by (simp add: ln_def re_match_def)
  have r2: "re_match (Bol # Lit '':'' # Open (Some ''user'') # Plus (Not (CHR ''!'')) # Close
      # Star Dot # chat_tail ''!uptime'') ln = None"
    unfolding ln_def using chat_no_match [of u j c "''PING'' @ r" "''!uptime''"] u(3) j c(2) b
    by simp
  have r3: "re_match (Bol # Lit '':'' # Open (Some ''user'') # Plus (Not (CHR ''!'')) # Close
      # Star Dot # chat_tail ''PING'') ln = Some m"
    unfolding ln_def m_def using u(1,2) nl(1) c nl(2) b by (rule chat_match)
  have g: "grps m = [(Some ''user'', u), (Some ''channel'', c), (Some ''msg'', ''PING'' @ r)]"
    by (simp add: m_def)
  have p1: "msg_ping m = Inr (MessageResponse m (''PONG '' @ esc rest'))"
    unfolding rest'_def using g by (rule msg_ping_call(1))
  have p2: "call (MessageResponse m (''PONG '' @ esc rest')) config e
      = Inr (Some (''PRIVMSG #'' @ c @ '' :PONG '' @ rest' @ CRLF))"
    using g by (rule msg_ping_call(2))
  have "\<exists>w'. for_handlers config quiet e HANDLERS ln w0 = Inr w'
      \<and> sent w' = sent w @ [''PRIVMSG #'' @ c @ '' :PONG '' @ rest' @ CRLF]"
    if "sent w0 = sent w" for w0
    using respond_sent [where func = msg_ping and m = m and quiet = quiet and w = w0, OF p1 p2] r1 r2 r3 that
    by (simp add: HANDLERS_unfold)
  with line have "\<exists>w'. iteration HANDLERS config quiet e w = Inr w'
      \<and> sent w' = sent w @ [''PRIVMSG #'' @ c @ '' :PONG '' @ rest' @ CRLF]"
    unfolding ln_def [symmetric] by (rule iteration_sent)
  moreover have "CHR '' '' \<notin> set r \<longrightarrow> rest' = []"
    by (simp add: rest'_def str_partition_no_sep)
  ultimately show ?thesis unfolding rest'_def by blast
qed

lemma echo_plain_body_examples:
  "map_sum id sent (iteration HANDLERS test_config True test_env
       (fresh ('':alice!alice@x PRIVMSG #chan :PINGx hello'' @ CRLF)))
     = Inr [''PRIVMSG #chan :PONG hello'' @ CRLF]
   \<and> map_sum id sent (iteration HANDLERS test_config True test_env
       (fresh ('':alice!alice@x PRIVMSG #chan :PING'' @ CRLF)))
     = Inr [''PRIVMSG #chan :PONG '' @ CRLF]"
proof -
  have "\<exists>w'. iteration HANDLERS test_config True test_env
          (fresh ('':alice!alice@x PRIVMSG #chan :PINGx hello'' @ CRLF)) = Inr w'
        \<and> sent w' = [''PRIVMSG #chan :PONG hello'' @ CRLF]"
    using echo_plain_body [of "fresh ('':alice!alice@x PRIVMSG #chan :PINGx hello'' @ CRLF)"
        "''alice''" "''alice@x''" "''chan''" "''x hello''" "[]" test_config True test_env]
    by (simp add: fresh_def sublist_Cons_right)
  moreover have "\<exists>w'. iteration HANDLERS test_config True test_env
          (fresh ('':alice!alice@x PRIVMSG #chan :PING'' @ CRLF)) = Inr w'
        \<and> sent w' = [''PRIVMSG #chan :PONG '' @ CRLF]"
    using echo_plain_body [of "fresh ('':alice!alice@x PRIVMSG #chan :PING'' @ CRLF)"
        "''alice''" "''alice@x''" "''chan''" "[]" "[]" test_config True test_env]
    by (simp add: fresh_def sublist_Cons_right)
  ultimately show ?thesis by auto
qed

text \<open>
  C10. The claim is that every chat message whose body begins with \<open>PING\<close> fires the echo
  rule and is answered with \<open>PONG \<close> followed by what the body has after its first space.
  The pattern of the rule means to capture the channel and the body of the message, but
  the \<open>.*\<close> before \<open> PRIVMSG #\<close> is greedy and runs up to the last place where the rest of
  the pattern matches. So for a body \<open>PING<r> PRIVMSG #<d> :PING<z>\<close> sent to channel \<open>c\<close> the
  groups are the channel \<open>d\<close> and the message \<open>PING<z>\<close>, and the reply goes to channel \<open>d\<close>
  with \<open>PONG \<close> and what \<open>PING<z>\<close> has after its first space. The chat line
  \<open>:alice!alice@x PRIVMSG #chan :PING PRIVMSG #d :PING z\r\n\<close> makes the loop send
  \<open>PRIVMSG #d :PONG z\r\n\<close>, where the body has \<open>PRIVMSG #d :PING z\<close> after its first space;
  and the body \<open>PING PRIVMSG #d :!uptime\<close> does not fire the echo rule at all, the uptime
  rule answers it.
\<close>

theorem chat_ping_misdirected:
  assumes u: "u \<noteq> []" "CHR ''!'' \<notin> set u"
    and nl: "LF \<notin> set h" "LF \<notin> set c" "LF \<notin> set r" "LF \<notin> set z"
    and d: "d \<noteq> []" "CHR '' '' \<notin> set d"
    and z: "\<not> sublist '' PRIVMSG #'' (''PING'' @ z)"
  shows "re_match (fst (HANDLERS ! 2))
           ('':'' @ u @ ''!'' @ h @ '' PRIVMSG #'' @ c @ '' :'' @ ''PING'' @ r
              @ '' PRIVMSG #'' @ d @ '' :'' @ ''PING'' @ z @ CRLF)
         = Some \<lparr>whole = '':'' @ u @ ''!'' @ h @ '' PRIVMSG #'' @ c @ '' :'' @ ''PING'' @ r
                          @ '' PRIVMSG #'' @ d @ '' :'' @ ''PING'' @ z @ CRLF,
                 grps = [(Some ''user'', u), (Some ''channel'', d), (Some ''msg'', ''PING'' @ z)]\<rparr>
       \<and> (\<exists>w'. respond config quiet e (snd (HANDLERS ! 2))
                 \<lparr>whole = '':'' @ u @ ''!'' @ h @ '' PRIVMSG #'' @ c @ '' :'' @ ''PING'' @ r
                            @ '' PRIVMSG #'' @ d @ '' :'' @ ''PING'' @ z @ CRLF,
                   grps = [(Some ''user'', u), (Some ''channel'', d), (Some ''msg'', ''PING'' @ z)]\<rparr> w
               = Inr w'
             \<and> sent w' = sent w @ [''PRIVMSG #'' @ d @ '' :PONG ''
                    @ snd (snd (str_partition (CHR '' '') (''PING'' @ z))) @ CRLF])
       \<and> map_sum id sent (iteration HANDLERS config quiet e
            (fresh ('':alice!alice@x PRIVMSG #chan :PING PRIVMSG #d :PING z'' @ CRLF)))
          = Inr [''PRIVMSG #d :PONG z'' @ CRLF]
       \<and> snd (snd (str_partition (CHR '' '') ''PING PRIVMSG #d :PING z'')) = ''PRIVMSG #d :PING z''
       \<and> map_sum id sent (iteration HANDLERS test_config True (test_env\<lparr>status := Inr []\<rparr>)
            (fresh ('':alice!alice@x PRIVMSG #chan :PING PRIVMSG #d :!uptime'' @ CRLF)))
          = Inr [''PRIVMSG #chan :not currently streaming!'' @ CRLF]"
proof -
  define j where "j = h @ '' PRIVMSG #'' @ c @ '' :'' @ ''PING'' @ r"
  define ln where "ln = '':'' @ u @ ''!'' @ j @ '' PRIVMSG #'' @ d @ '' :'' @ ''PING'' @ z @ CRLF"
  define m where "m = \<lparr>whole = ln,
      grps = [(Some ''user'', u), (Some ''channel'', d), (Some ''msg'', ''PING'' @ z)]\<rparr>"
  define rest' where "rest' = snd (snd (str_partition (CHR '' '') (''PING'' @ z)))"
  have ln: "'':'' @ u @ ''!'' @ h @ '' PRIVMSG #'' @ c @ '' :'' @ ''PING'' @ r
              @ '' PRIVMSG #'' @ d @ '' :'' @ ''PING'' @ z @ CRLF = ln"
    by (simp add: ln_def j_def)
  have nj: "LF \<notin> set j" using nl by (simp add: j_def)
  have r3: "re_match (Bol # Lit '':'' # Open (Some ''user'') # Plus (Not (CHR ''!'')) # Close
      # Star Dot # chat_tail ''PING'') ln = Some m"
    unfolding ln_def m_def using u nj d nl(4) z by (rule chat_match)
  have p: "fst (HANDLERS ! 2) = Bol # Lit '':'' # Open (Some ''user'') # Plus (Not (CHR ''!'')) # Close
      # Star Dot # chat_tail ''PING''"
    by (simp add: HANDLERS_def handler_def handle_message_def chat_tail_def)
  have q: "snd (HANDLERS ! 2) = msg_ping"
    by (simp add: HANDLERS_def handler_def handle_message_def)
  have g: "grps m = [(Some ''user'', u), (Some ''channel'', d), (Some ''msg'', ''PING'' @ z)]"
    by (simp add: m_def)
  have p1: "msg_ping m = Inr (MessageResponse m (''PONG '' @ esc rest'))"
    unfolding rest'_def using g by (rule msg_ping_call(1))
  have p2: "call (MessageResponse m (''PONG '' @ esc rest')) config e
      = Inr (Some (''PRIVMSG #'' @ d @ '' :PONG '' @ rest' @ CRLF))"
    using g by (rule msg_ping_call(2))
  have c1: "re_match (fst (HANDLERS ! 2)) ln = Some m" using r3 p by simp
  have c2: "\<exists>w'. respond config quiet e (snd (HANDLERS ! 2)) m w = Inr w'
      \<and> sent w' = sent w @ [''PRIVMSG #'' @ d @ '' :PONG '' @ rest' @ CRLF]"
    unfolding q
    using respond_sent [where func = msg_ping and m = m and quiet = quiet and w = w, OF p1 p2] .
  have c3: "map_sum id sent (iteration HANDLERS config quiet e
            (fresh ('':alice!alice@x PRIVMSG #chan :PING PRIVMSG #d :PING z'' @ CRLF)))
          = Inr [''PRIVMSG #d :PONG z'' @ CRLF]"
    by (simp add: run_defs)
  have c4: "snd (snd (str_partition (CHR '' '') ''PING PRIVMSG #d :PING z'')) = ''PRIVMSG #d :PING z''"
    by (simp add: run_defs)
  have c5: "map_sum id sent (iteration HANDLERS test_config True (test_env\<lparr>status := Inr []\<rparr>)
            (fresh ('':alice!alice@x PRIVMSG #chan :PING PRIVMSG #d :!uptime'' @ CRLF)))
          = Inr [''PRIVMSG #chan :not currently streaming!'' @ CRLF]"
    by (simp add: run_defs)
  show ?thesis
    unfolding ln using c1 c2 c3 c4 c5 unfolding m_def rest'_def by blast
qed

theorem chat_ping_misdirected_witness:
  "re_match (fst (HANDLERS ! 2)) ('':alice!alice@x PRIVMSG #chan :PING PRIVMSG #d :PING z'' @ CRLF)
     = Some \<lparr>whole = '':alice!alice@x PRIVMSG #chan :PING PRIVMSG #d :PING z'' @ CRLF,
             grps = [(Some ''user'', ''alice''), (Some ''channel'', ''d''), (Some ''msg'', ''PING z'')]\<rparr>
   \<and> map_sum id sent (respond test_config True test_env (snd (HANDLERS ! 2))
         \<lparr>whole = '':alice!alice@x PRIVMSG #chan :PING PRIVMSG #d :PING z'' @ CRLF,
           grps = [(Some ''user'', ''alice''), (Some ''channel'', ''d''), (Some ''msg'', ''PING z'')]\<rparr>
         (fresh []))
       = Inr [''PRIVMSG #d :PONG z'' @ CRLF]
   \<and> map_sum id sent (iteration HANDLERS test_config True test_env
        (fresh ('':alice!alice@x PRIVMSG #chan :PING PRIVMSG #d :PING z'' @ CRLF)))
       = Inr [''PRIVMSG #d :PONG z'' @ CRLF]"
proof -
  note t = chat_ping_misdirected [where u = "''alice''" and h = "''alice@x''" and c = "''chan''"
      and r = "[]" and d = "''d''" and z = "'' z''" and config = test_config and quiet = True
      and e = test_env and w = "fresh []"]
  have a: "''alice'' \<noteq> []" "CHR ''!'' \<notin> set ''alice''" "LF \<notin> set ''alice@x''"
    "LF \<notin> set ''chan''" "LF \<notin> set []" "LF \<notin> set '' z''" "''d'' \<noteq> []" "CHR '' '' \<notin> set ''d''"
    "\<not> sublist '' PRIVMSG #'' (''PING'' @ '' z'')"
    by (simp_all add: sublist_Cons_right)
  from t [OF a] show ?thesis
    by (auto simp: fresh_def)
qed

end
